theory Spec2Isabelle
  imports Complex_Main "HOL-Library.Multiset"
begin

section \<open>Conventions of the embedding\<close>

text \<open>
  The kernels of \<^verbatim>\<open>ruge_stuben.h\<close> work on flat arrays. An array is a list, an index
  of the template type \<^verbatim>\<open>I\<close> is a natural number (a well-formed CSR matrix has no
  negative index), and a scalar of the template types \<^verbatim>\<open>T\<close> and \<^verbatim>\<open>F\<close> is a
  real number, so that comparisons are the exact ones. An in-place write
  \<^verbatim>\<open>a[i] = v\<close> is the list update \<open>a[i := v]\<close>; a \<^verbatim>\<open>for\<close> loop over an index range
  is a \<open>fold\<close> over that range, the loop body being the folded function.

  Two things the kernels use are declared in headers outside this file and are therefore
  parameters of the definitions: \<^verbatim>\<open>mynorm\<close> (\<^verbatim>\<open>linalg.h\<close>), and the value of
  \<^verbatim>\<open>std::numeric_limits<F>::min()\<close>, which for a floating-point type is the smallest
  positive normalised number, not the most negative one.
\<close>

definition dbl_min :: real where
  \<comment> \<open>\<^verbatim>\<open>std::numeric_limits<double>::min()\<close>, the smallest positive normal double\<close>
  "dbl_min = 1 / 2 ^ 1022"

section \<open>Node labels\<close>

text \<open>The four \<^verbatim>\<open>#define\<close>d labels of a node.\<close>

definition F_NODE :: nat where "F_NODE = 0"

definition C_NODE :: nat where "C_NODE = 1"

definition U_NODE :: nat where "U_NODE = 2"

definition PRE_F_NODE :: nat where "PRE_F_NODE = 3"


section \<open>Strength of connection\<close>

subsection \<open>\<^verbatim>\<open>maximum_row_value\<close>\<close>

definition max_entry_of_row :: "('t \<Rightarrow> real) \<Rightarrow> real \<Rightarrow> 't list \<Rightarrow> nat \<Rightarrow> nat \<Rightarrow> real" where
  "max_entry_of_row mynorm fmin Ax row_start row_end =
     fold (\<lambda>jj max_entry. max max_entry (mynorm (Ax ! jj))) [row_start..<row_end] fmin"

definition maximum_row_value ::
  "('t \<Rightarrow> real) \<Rightarrow> real \<Rightarrow> nat \<Rightarrow> real list \<Rightarrow> nat list \<Rightarrow> nat list \<Rightarrow> 't list \<Rightarrow> real list" where
  "maximum_row_value mynorm fmin n_row x Ap Aj Ax =
     fold (\<lambda>i x. x[i := max_entry_of_row mynorm fmin Ax (Ap ! i) (Ap ! (i + 1))]) [0..<n_row] x"

subsection \<open>\<^verbatim>\<open>classical_strength_of_connection\<close>\<close>

definition max_offdiagonal_of_row ::
  "('t \<Rightarrow> real) \<Rightarrow> real \<Rightarrow> nat list \<Rightarrow> 't list \<Rightarrow> nat \<Rightarrow> nat \<Rightarrow> nat \<Rightarrow> real" where
  "max_offdiagonal_of_row mynorm fmin Aj Ax i row_start row_end =
     fold (\<lambda>jj max_offdiagonal.
             if Aj ! jj \<noteq> i then max max_offdiagonal (mynorm (Ax ! jj)) else max_offdiagonal)
          [row_start..<row_end] fmin"

text \<open>The state of the output: the arrays \<open>Sp\<close>, \<open>Sj\<close>, \<open>Sx\<close> and the counter \<open>nnz\<close>.\<close>

type_synonym 't csr_out = "nat list \<times> nat list \<times> 't list \<times> nat"

definition soc_entry ::
  "('t \<Rightarrow> real) \<Rightarrow> nat list \<Rightarrow> 't list \<Rightarrow> nat \<Rightarrow> real \<Rightarrow> nat \<Rightarrow> 't csr_out \<Rightarrow> 't csr_out" where
  "soc_entry mynorm Aj Ax i threshold jj st =
     (case st of (Sp, Sj, Sx, nnz) \<Rightarrow>
        let norm_jj = mynorm (Ax ! jj);
            (Sj1, Sx1, nnz1) =
              (if norm_jj \<ge> threshold \<and> Aj ! jj \<noteq> i
               then (Sj[nnz := Aj ! jj], Sx[nnz := Ax ! jj], nnz + 1)
               else (Sj, Sx, nnz))
        in if Aj ! jj = i
           then (Sp, Sj1[nnz1 := Aj ! jj], Sx1[nnz1 := Ax ! jj], nnz1 + 1)
           else (Sp, Sj1, Sx1, nnz1))"

definition soc_row ::
  "('t \<Rightarrow> real) \<Rightarrow> real \<Rightarrow> real \<Rightarrow> nat list \<Rightarrow> nat list \<Rightarrow> 't list \<Rightarrow> nat \<Rightarrow> 't csr_out \<Rightarrow> 't csr_out" where
  "soc_row mynorm fmin theta Ap Aj Ax i st =
     (let row_start = Ap ! i;
          row_end = Ap ! (i + 1);
          max_offdiagonal = max_offdiagonal_of_row mynorm fmin Aj Ax i row_start row_end;
          threshold = theta * max_offdiagonal
      in case fold (soc_entry mynorm Aj Ax i threshold) [row_start..<row_end] st of
           (Sp, Sj, Sx, nnz) \<Rightarrow> (Sp[i + 1 := nnz], Sj, Sx, nnz))"

definition classical_strength_of_connection ::
  "('t \<Rightarrow> real) \<Rightarrow> real \<Rightarrow> nat \<Rightarrow> real \<Rightarrow> nat list \<Rightarrow> nat list \<Rightarrow> 't list \<Rightarrow>
   nat list \<Rightarrow> nat list \<Rightarrow> 't list \<Rightarrow> nat list \<times> nat list \<times> 't list" where
  "classical_strength_of_connection mynorm fmin n_row theta Ap Aj Ax Sp Sj Sx =
     (case fold (soc_row mynorm fmin theta Ap Aj Ax) [0..<n_row] (Sp[0 := 0], Sj, Sx, 0) of
        (Sp', Sj', Sx', nnz) \<Rightarrow> (Sp', Sj', Sx'))"


section \<open>Compatible relaxation: \<^verbatim>\<open>cr_helper\<close>\<close>

text \<open>
  The candidate list \<^verbatim>\<open>Uindex\<close> and the list \<^verbatim>\<open>neighbors\<close> are vectors grown with
  \<^verbatim>\<open>push_back\<close>, here lists extended at the end. The sentinel \<^verbatim>\<open>new_pt = -1\<close> is
  \<open>None\<close>. The loop \<^verbatim>\<open>while (true)\<close> that forms the independent set has no bound in
  the source, so it is a partial function: \<open>None\<close> stands for a run that never leaves it.
\<close>

definition cr_scale_e :: "real list \<Rightarrow> nat list \<Rightarrow> real list \<Rightarrow> real list \<times> real" where
  "cr_scale_e B indices e =
     fold (\<lambda>i (e, inf_norm).
             let pt = indices ! i;
                 e1 = e[pt := \<bar>e ! pt / B ! pt\<bar>]
             in (e1, if e1 ! pt > inf_norm then e1 ! pt else inf_norm))
          [1..<indices ! 0 + 1] (e, 0)"

definition cr_candidates ::
  "real list \<Rightarrow> real \<Rightarrow> real \<Rightarrow> nat list \<Rightarrow> real list \<Rightarrow> real list \<times> nat list" where
  "cr_candidates e inf_norm thetacs indices gamma =
     fold (\<lambda>i (gamma, Uindex).
             let pt = indices ! i;
                 gamma1 = gamma[pt := e ! pt / inf_norm]
             in (gamma1, if gamma1 ! pt > thetacs then Uindex @ [pt] else Uindex))
          [1..<indices ! 0 + 1] (gamma, [])"

definition cr_weights ::
  "nat list \<Rightarrow> nat list \<Rightarrow> nat list \<Rightarrow> real list \<Rightarrow> nat list \<Rightarrow> real list \<Rightarrow> real list" where
  "cr_weights A_rowptr A_colinds splitting gamma Uindex omega =
     fold (\<lambda>i omega.
             let pt = Uindex ! i;
                 num_neighbors =
                   fold (\<lambda>j num_neighbors.
                           if splitting ! (A_colinds ! j) = 0 then num_neighbors + 1
                           else num_neighbors)
                        [A_rowptr ! pt..<A_rowptr ! (pt + 1)] (0::nat)
             in omega[pt := real num_neighbors + gamma ! pt])
          [0..<length Uindex] omega"

definition cr_max_weight :: "nat list \<Rightarrow> real list \<Rightarrow> real \<times> nat option" where
  "cr_max_weight Uindex omega =
     fold (\<lambda>i (max_weight, new_pt).
             let pt = Uindex ! i
             in if omega ! pt > max_weight then (omega ! pt, Some pt) else (max_weight, new_pt))
          [0..<length Uindex] (0, None)"

definition cr_remove_neighbors ::
  "nat list \<Rightarrow> nat list \<Rightarrow> nat \<Rightarrow> real list \<Rightarrow> nat list \<times> real list" where
  "cr_remove_neighbors A_rowptr A_colinds new_pt omega =
     fold (\<lambda>i (neighbors, omega).
             let temp = A_colinds ! i in (neighbors @ [temp], omega[temp := 0]))
          [A_rowptr ! new_pt..<A_rowptr ! (new_pt + 1)] ([], omega)"

definition cr_bump_neighbors ::
  "nat list \<Rightarrow> nat list \<Rightarrow> nat list \<Rightarrow> real list \<Rightarrow> real list" where
  "cr_bump_neighbors A_rowptr A_colinds neighbors omega =
     fold (\<lambda>i omega.
             let pt = neighbors ! i
             in fold (\<lambda>j omega.
                        let temp = A_colinds ! j
                        in if omega ! temp \<noteq> 0 then omega[temp := omega ! temp + 1] else omega)
                     [A_rowptr ! pt..<A_rowptr ! (pt + 1)] omega)
          [0..<length neighbors] omega"

partial_function (option) cr_independent_set ::
  "nat list \<Rightarrow> nat list \<Rightarrow> nat list \<Rightarrow> nat list \<Rightarrow> real list \<Rightarrow> real list \<Rightarrow>
   (nat list \<times> real list \<times> real list) option" where
  "cr_independent_set A_rowptr A_colinds Uindex splitting gamma omega =
     (case snd (cr_max_weight Uindex omega) of
        None \<Rightarrow> Some (splitting, gamma, omega)
      | Some new_pt \<Rightarrow>
          cr_independent_set A_rowptr A_colinds Uindex
            (splitting[new_pt := 1]) (gamma[new_pt := 0])
            (cr_bump_neighbors A_rowptr A_colinds
               (fst (cr_remove_neighbors A_rowptr A_colinds new_pt omega))
               (snd (cr_remove_neighbors A_rowptr A_colinds new_pt omega))))"

definition cr_reorder_step ::
  "nat list \<Rightarrow> nat \<Rightarrow> nat list \<times> nat \<times> nat \<Rightarrow> nat list \<times> nat \<times> nat" where
  \<comment> \<open>\<^verbatim>\<open>num_Fpts\<close> is a reference to \<^verbatim>\<open>indices[0]\<close>\<close>
  "cr_reorder_step splitting i st =
     (case st of (indices, next_Find, next_Cind) \<Rightarrow>
        if splitting ! i = 0
        then (let indices1 = indices[next_Find := i]
              in (indices1[0 := indices1 ! 0 + 1], next_Find + 1, next_Cind))
        else (indices[next_Cind := i], next_Find, next_Cind - 1))"

definition cr_reorder :: "nat list \<Rightarrow> nat list \<Rightarrow> nat list" where
  "cr_reorder splitting indices =
     (let n = length splitting
      in fst (fold (cr_reorder_step splitting) [0..<n] (indices[0 := 0], 1, n)))"

definition cr_helper ::
  "nat list \<Rightarrow> nat list \<Rightarrow> real list \<Rightarrow> real list \<Rightarrow> nat list \<Rightarrow> nat list \<Rightarrow> real list \<Rightarrow>
   real \<Rightarrow> real list \<Rightarrow> (real list \<times> nat list \<times> nat list \<times> real list \<times> real list) option" where
  "cr_helper A_rowptr A_colinds B e indices splitting gamma thetacs cost =
     (let Annz = real (length A_colinds);
          n = length splitting;
          num_Fpts = indices ! 0;
          (e1, inf_norm) = cr_scale_e B indices e;
          cost1 = cost[0 := cost ! 0 + real num_Fpts / Annz];
          (gamma1, Uindex) = cr_candidates e1 inf_norm thetacs indices gamma;
          cost2 = cost1[0 := cost1 ! 0 + real num_Fpts / Annz];
          omega = cr_weights A_rowptr A_colinds splitting gamma1 Uindex (replicate n 0)
      in case cr_independent_set A_rowptr A_colinds Uindex splitting gamma1 omega of
           None \<Rightarrow> None
         | Some (splitting1, gamma2, omega1) \<Rightarrow>
             Some (e1, cr_reorder splitting1 indices, splitting1, gamma2, cost2))"

declare cr_independent_set.simps [code]

text \<open>The nodes below \<open>k\<close> labelled 0, and those labelled otherwise, in ascending order.\<close>

definition F_upto :: "nat list \<Rightarrow> nat \<Rightarrow> nat list" where
  "F_upto splitting k = filter (\<lambda>i. splitting ! i = 0) [0..<k]"

definition C_upto :: "nat list \<Rightarrow> nat \<Rightarrow> nat list" where
  "C_upto splitting k = filter (\<lambda>i. splitting ! i \<noteq> 0) [0..<k]"

definition labels_kept :: "nat list \<Rightarrow> nat list \<Rightarrow> bool" where
  "labels_kept s s' \<longleftrightarrow> length s' = length s
         \<and> ((\<forall>i < length s. s ! i = 0 \<or> s ! i = 1)
              \<longrightarrow> (\<forall>i < length s. s' ! i = 0 \<or> s' ! i = 1))"

text \<open>
  The loop that forms the independent set ends when the weight of the selected node is set
  to zero with those of its neighbours, that is, when the row of every candidate holds its
  diagonal entry; the candidates are among the listed F nodes.
\<close>

definition cr_diag_stored :: "nat list \<Rightarrow> nat list \<Rightarrow> nat list \<Rightarrow> nat \<Rightarrow> bool" where
  "cr_diag_stored A_rowptr A_colinds indices n \<longleftrightarrow>
     list_all (\<lambda>i. indices ! i < n
                    \<and> list_ex (\<lambda>j. A_colinds ! j = indices ! i)
                              [A_rowptr ! (indices ! i)..<A_rowptr ! (indices ! i + 1)])
              [1..<indices ! 0 + 1]"

definition cr_live :: "real list \<Rightarrow> nat set" where
  \<comment> \<open>the nodes whose weight is not zero\<close>
  "cr_live omega = {p. p < length omega \<and> omega ! p \<noteq> 0}"

section \<open>Direct interpolation\<close>

text \<open>
  \<^verbatim>\<open>rs_direct_interpolation_pass1\<close> computes the row pointer of \<open>P\<close>,
  \<^verbatim>\<open>rs_direct_interpolation_pass2\<close> fills the column indices and the weights. The
  scalars are real numbers; the source divides in floating point, where a division by zero
  gives an infinity or a NaN and here gives 0, so the statements about weights ask for a
  divisor that is not zero.
\<close>

definition strong_C :: "nat list \<Rightarrow> nat list \<Rightarrow> nat \<Rightarrow> nat \<Rightarrow> bool" where
  \<comment> \<open>the test \<^verbatim>\<open>(splitting[Sj[jj]] == C_NODE) && (Sj[jj] != i)\<close>\<close>
  "strong_C splitting Sj i jj \<longleftrightarrow> splitting ! (Sj ! jj) = C_NODE \<and> Sj ! jj \<noteq> i"

definition interp_pass1_row :: "nat list \<Rightarrow> nat list \<Rightarrow> nat list \<Rightarrow> nat \<Rightarrow> nat list \<times> nat \<Rightarrow> nat list \<times> nat" where
  "interp_pass1_row Sp Sj splitting i st =
     (case st of (Bp, nnz) \<Rightarrow>
        let nnz1 = (if splitting ! i = C_NODE then nnz + 1
                    else fold (\<lambda>jj nnz. if strong_C splitting Sj i jj then nnz + 1 else nnz)
                              [Sp ! i..<Sp ! (i + 1)] nnz)
        in (Bp[i + 1 := nnz1], nnz1))"

definition rs_direct_interpolation_pass1 :: "nat \<Rightarrow> nat list \<Rightarrow> nat list \<Rightarrow> nat list \<Rightarrow> nat list \<Rightarrow> nat list" where
  "rs_direct_interpolation_pass1 n_nodes Sp Sj splitting Bp =
     fst (fold (interp_pass1_row Sp Sj splitting) [0..<n_nodes] (Bp[0 := 0], 0))"

definition sum_strong :: "nat list \<Rightarrow> nat list \<Rightarrow> real list \<Rightarrow> nat list \<Rightarrow> nat \<Rightarrow> real \<times> real" where
  \<comment> \<open>\<open>(sum_strong_pos, sum_strong_neg)\<close> of row \<open>i\<close>\<close>
  "sum_strong Sp Sj Sx splitting i =
     fold (\<lambda>jj (sum_strong_pos, sum_strong_neg).
             if strong_C splitting Sj i jj
             then (if Sx ! jj < 0 then (sum_strong_pos, sum_strong_neg + Sx ! jj)
                   else (sum_strong_pos + Sx ! jj, sum_strong_neg))
             else (sum_strong_pos, sum_strong_neg))
          [Sp ! i..<Sp ! (i + 1)] (0, 0)"

definition sum_all :: "nat list \<Rightarrow> nat list \<Rightarrow> real list \<Rightarrow> nat \<Rightarrow> real \<times> real \<times> real" where
  \<comment> \<open>\<open>(sum_all_pos, sum_all_neg, diag)\<close> of row \<open>i\<close>\<close>
  "sum_all Ap Aj Ax i =
     fold (\<lambda>jj (sum_all_pos, sum_all_neg, diag).
             if Aj ! jj = i then (sum_all_pos, sum_all_neg, diag + Ax ! jj)
             else (if Ax ! jj < 0 then (sum_all_pos, sum_all_neg + Ax ! jj, diag)
                   else (sum_all_pos + Ax ! jj, sum_all_neg, diag)))
          [Ap ! i..<Ap ! (i + 1)] (0, 0, 0)"

definition direct_coeffs ::
  "nat list \<Rightarrow> nat list \<Rightarrow> real list \<Rightarrow> nat list \<Rightarrow> nat list \<Rightarrow> real list \<Rightarrow> nat list \<Rightarrow> nat \<Rightarrow> real \<times> real" where
  \<comment> \<open>\<open>(neg_coeff, pos_coeff)\<close> of row \<open>i\<close>\<close>
  "direct_coeffs Ap Aj Ax Sp Sj Sx splitting i =
     (case sum_strong Sp Sj Sx splitting i of (sum_strong_pos, sum_strong_neg) \<Rightarrow>
      case sum_all Ap Aj Ax i of (sum_all_pos, sum_all_neg, diag) \<Rightarrow>
        let alpha = sum_all_neg / sum_strong_neg;
            beta = sum_all_pos / sum_strong_pos;
            (diag1, beta1) = (if sum_strong_pos = 0 then (diag + sum_all_pos, 0) else (diag, beta));
            neg_coeff = - alpha / diag1;
            pos_coeff = - beta1 / diag1
        in (neg_coeff, pos_coeff))"

definition direct_entry ::
  "nat list \<Rightarrow> real list \<Rightarrow> nat list \<Rightarrow> nat \<Rightarrow> real \<Rightarrow> real \<Rightarrow> nat \<Rightarrow>
   nat list \<times> real list \<times> nat \<Rightarrow> nat list \<times> real list \<times> nat" where
  "direct_entry Sj Sx splitting i neg_coeff pos_coeff jj st =
     (case st of (Bj, Bx, nnz) \<Rightarrow>
        if strong_C splitting Sj i jj
        then (Bj[nnz := Sj ! jj],
              Bx[nnz := (if Sx ! jj < 0 then neg_coeff * Sx ! jj else pos_coeff * Sx ! jj)],
              nnz + 1)
        else (Bj, Bx, nnz))"

definition direct_row ::
  "nat list \<Rightarrow> nat list \<Rightarrow> real list \<Rightarrow> nat list \<Rightarrow> nat list \<Rightarrow> real list \<Rightarrow> nat list \<Rightarrow> nat list \<Rightarrow>
   nat \<Rightarrow> nat list \<times> real list \<Rightarrow> nat list \<times> real list" where
  "direct_row Ap Aj Ax Sp Sj Sx splitting Bp i st =
     (case st of (Bj, Bx) \<Rightarrow>
        if splitting ! i = C_NODE then (Bj[Bp ! i := i], Bx[Bp ! i := 1])
        else (case direct_coeffs Ap Aj Ax Sp Sj Sx splitting i of (neg_coeff, pos_coeff) \<Rightarrow>
              case fold (direct_entry Sj Sx splitting i neg_coeff pos_coeff)
                        [Sp ! i..<Sp ! (i + 1)] (Bj, Bx, Bp ! i) of
                (Bj1, Bx1, nnz) \<Rightarrow> (Bj1, Bx1)))"

definition coarse_map_step :: "nat list \<Rightarrow> nat \<Rightarrow> nat list \<times> nat \<Rightarrow> nat list \<times> nat" where
  \<comment> \<open>\<^verbatim>\<open>map[i] = sum; sum += splitting[i]\<close>, the running sum being \<open>csum\<close>\<close>
  "coarse_map_step splitting i st =
     (case st of (cmap, csum) \<Rightarrow> (cmap[i := csum], csum + splitting ! i))"

definition coarse_map :: "nat \<Rightarrow> nat list \<Rightarrow> nat list" where
  "coarse_map n_nodes splitting =
     fst (fold (coarse_map_step splitting) [0..<n_nodes] (replicate n_nodes 0, 0))"

definition remap_columns :: "nat list \<Rightarrow> nat \<Rightarrow> nat list \<Rightarrow> nat list" where
  "remap_columns cmap nnz Bj = fold (\<lambda>i Bj. Bj[i := cmap ! (Bj ! i)]) [0..<nnz] Bj"

definition rs_direct_interpolation_pass2 ::
  "nat \<Rightarrow> nat list \<Rightarrow> nat list \<Rightarrow> real list \<Rightarrow> nat list \<Rightarrow> nat list \<Rightarrow> real list \<Rightarrow> nat list \<Rightarrow> nat list \<Rightarrow>
   nat list \<Rightarrow> real list \<Rightarrow> nat list \<times> real list" where
  "rs_direct_interpolation_pass2 n_nodes Ap Aj Ax Sp Sj Sx splitting Bp Bj Bx =
     (case fold (direct_row Ap Aj Ax Sp Sj Sx splitting Bp) [0..<n_nodes] (Bj, Bx) of
        (Bj1, Bx1) \<Rightarrow>
          (remap_columns (coarse_map n_nodes splitting) (Bp ! n_nodes) Bj1, Bx1))"

text \<open>
  Vocabulary for the statements about the interpolation: the entries of row \<open>i\<close> of \<open>S\<close>
  that pass the test, in the order of the row; the number of entries of row \<open>i\<close> of \<open>P\<close>;
  the sums of the formula as sums over the row; and \<open>\<alpha>\<close>, \<open>\<beta>\<close> and the diagonal the
  weights are divided by.
\<close>

definition strong_C_entries :: "nat list \<Rightarrow> nat list \<Rightarrow> nat list \<Rightarrow> nat \<Rightarrow> nat list" where
  "strong_C_entries splitting Sp Sj i = filter (strong_C splitting Sj i) [Sp ! i..<Sp ! (i + 1)]"

definition row_count :: "nat list \<Rightarrow> nat list \<Rightarrow> nat list \<Rightarrow> nat \<Rightarrow> nat" where
  "row_count splitting Sp Sj i =
     (if splitting ! i = C_NODE then 1 else length (strong_C_entries splitting Sp Sj i))"

definition spec_sum_strong_neg :: "nat list \<Rightarrow> nat list \<Rightarrow> nat list \<Rightarrow> real list \<Rightarrow> nat \<Rightarrow> real" where
  "spec_sum_strong_neg splitting Sp Sj Sx i =
     (\<Sum>jj\<leftarrow>strong_C_entries splitting Sp Sj i. if Sx ! jj < 0 then Sx ! jj else 0)"

definition spec_sum_strong_pos :: "nat list \<Rightarrow> nat list \<Rightarrow> nat list \<Rightarrow> real list \<Rightarrow> nat \<Rightarrow> real" where
  "spec_sum_strong_pos splitting Sp Sj Sx i =
     (\<Sum>jj\<leftarrow>strong_C_entries splitting Sp Sj i. if Sx ! jj < 0 then 0 else Sx ! jj)"

definition spec_sum_all_neg :: "nat list \<Rightarrow> nat list \<Rightarrow> real list \<Rightarrow> nat \<Rightarrow> real" where
  "spec_sum_all_neg Ap Aj Ax i =
     (\<Sum>jj\<leftarrow>[Ap ! i..<Ap ! (i + 1)]. if Aj ! jj \<noteq> i \<and> Ax ! jj < 0 then Ax ! jj else 0)"

definition spec_sum_all_pos :: "nat list \<Rightarrow> nat list \<Rightarrow> real list \<Rightarrow> nat \<Rightarrow> real" where
  "spec_sum_all_pos Ap Aj Ax i =
     (\<Sum>jj\<leftarrow>[Ap ! i..<Ap ! (i + 1)]. if Aj ! jj \<noteq> i \<and> \<not> Ax ! jj < 0 then Ax ! jj else 0)"

definition spec_diag :: "nat list \<Rightarrow> nat list \<Rightarrow> real list \<Rightarrow> nat \<Rightarrow> real" where
  "spec_diag Ap Aj Ax i =
     (\<Sum>jj\<leftarrow>[Ap ! i..<Ap ! (i + 1)]. if Aj ! jj = i then Ax ! jj else 0)"

definition direct_value :: "real list \<Rightarrow> real \<Rightarrow> real \<Rightarrow> nat \<Rightarrow> real" where
  "direct_value Sx neg_coeff pos_coeff jj =
     (if Sx ! jj < 0 then neg_coeff * Sx ! jj else pos_coeff * Sx ! jj)"

definition direct_row_values ::
  "nat list \<Rightarrow> nat list \<Rightarrow> real list \<Rightarrow> nat list \<Rightarrow> nat list \<Rightarrow> real list \<Rightarrow> nat list \<Rightarrow> nat \<Rightarrow> (nat \<times> real) list" where
  "direct_row_values Ap Aj Ax Sp Sj Sx splitting i =
     (if splitting ! i = C_NODE then [(i, 1)]
      else map (\<lambda>jj. (Sj ! jj, direct_value Sx (fst (direct_coeffs Ap Aj Ax Sp Sj Sx splitting i))
                                            (snd (direct_coeffs Ap Aj Ax Sp Sj Sx splitting i)) jj))
               (strong_C_entries splitting Sp Sj i))"

definition direct_alpha ::
  "nat list \<Rightarrow> nat list \<Rightarrow> real list \<Rightarrow> nat list \<Rightarrow> nat list \<Rightarrow> real list \<Rightarrow> nat list \<Rightarrow> nat \<Rightarrow> real" where
  "direct_alpha Ap Aj Ax Sp Sj Sx splitting i =
     spec_sum_all_neg Ap Aj Ax i / spec_sum_strong_neg splitting Sp Sj Sx i"

definition direct_beta ::
  "nat list \<Rightarrow> nat list \<Rightarrow> real list \<Rightarrow> nat list \<Rightarrow> nat list \<Rightarrow> real list \<Rightarrow> nat list \<Rightarrow> nat \<Rightarrow> real" where
  "direct_beta Ap Aj Ax Sp Sj Sx splitting i =
     (if spec_sum_strong_pos splitting Sp Sj Sx i = 0 then 0
      else spec_sum_all_pos Ap Aj Ax i / spec_sum_strong_pos splitting Sp Sj Sx i)"

definition direct_diag ::
  "nat list \<Rightarrow> nat list \<Rightarrow> real list \<Rightarrow> nat list \<Rightarrow> nat list \<Rightarrow> real list \<Rightarrow> nat list \<Rightarrow> nat \<Rightarrow> real" where
  "direct_diag Ap Aj Ax Sp Sj Sx splitting i =
     (if spec_sum_strong_pos splitting Sp Sj Sx i = 0
      then spec_diag Ap Aj Ax i + spec_sum_all_pos Ap Aj Ax i
      else spec_diag Ap Aj Ax i)"

section \<open>Approximate ideal restriction\<close>

text \<open>
  \<^verbatim>\<open>std::sort\<close> with the comparator on the second component, and the solver
  \<^verbatim>\<open>least_squares\<close> of \<^verbatim>\<open>linalg.h\<close>, are parameters: \<open>srt\<close> returns the sorted
  vector, \<open>lsq A0 b0 n\<close> the solution the solver writes to its output argument. The
  vector \<^verbatim>\<open>neighborhood\<close> is built by \<^verbatim>\<open>push_back\<close> in the order of the row.
\<close>

definition strong_F :: "nat list \<Rightarrow> real list \<Rightarrow> nat list \<Rightarrow> nat \<Rightarrow> bool" where
  \<comment> \<open>\<^verbatim>\<open>(splitting[C_colinds[i]] == F_NODE) && (std::abs(C_data[i]) > 1e-16)\<close>\<close>
  "strong_F C_colinds C_data splitting i \<longleftrightarrow>
     splitting ! (C_colinds ! i) = F_NODE \<and> \<bar>C_data ! i\<bar> > 1 / 10 ^ 16"

definition air_neighborhood ::
  "nat list \<Rightarrow> nat list \<Rightarrow> real list \<Rightarrow> nat list \<Rightarrow> nat \<Rightarrow> (nat \<times> real) list" where
  "air_neighborhood C_rowptr C_colinds C_data splitting cpoint =
     map (\<lambda>i. (i, C_data ! i))
         (filter (strong_F C_colinds C_data splitting) [C_rowptr ! cpoint..<C_rowptr ! (cpoint + 1)])"

definition air_pass1_row ::
  "((nat \<times> real) list \<Rightarrow> (nat \<times> real) list) \<Rightarrow> nat list \<Rightarrow> nat list \<Rightarrow> nat list \<Rightarrow> nat list \<Rightarrow> nat \<Rightarrow>
   nat \<Rightarrow> nat list \<times> real list \<times> nat \<Rightarrow> nat list \<times> real list \<times> nat" where
  "air_pass1_row srt C_rowptr C_colinds Cpts splitting max_row row st =
     (case st of (rowptr, C_data, nnz) \<Rightarrow>
        let cpoint = Cpts ! row;
            neighborhood = air_neighborhood C_rowptr C_colinds C_data splitting cpoint;
            size = length neighborhood;
            C_data1 =
              (if size > max_row
               then (let sorted = srt neighborhood
                     in fold (\<lambda>i C_data. C_data[fst (sorted ! i) := 0]) [max_row..<size] C_data)
               else C_data);
            nnz1 = nnz + (1 + min size max_row)
        in (rowptr[row + 1 := nnz1], C_data1, nnz1))"

definition approx_ideal_restriction_pass1 ::
  "((nat \<times> real) list \<Rightarrow> (nat \<times> real) list) \<Rightarrow> nat list \<Rightarrow> nat list \<Rightarrow> nat list \<Rightarrow> real list \<Rightarrow>
   nat list \<Rightarrow> nat list \<Rightarrow> nat \<Rightarrow> nat list \<times> real list" where
  "approx_ideal_restriction_pass1 srt rowptr C_rowptr C_colinds C_data Cpts splitting max_row =
     (case fold (air_pass1_row srt C_rowptr C_colinds Cpts splitting max_row) [0..<length Cpts]
                (rowptr[0 := 0], C_data, 0) of
        (rowptr1, C_data1, nnz) \<Rightarrow> (rowptr1, C_data1))"

definition air_lookup :: "nat list \<Rightarrow> nat list \<Rightarrow> real list \<Rightarrow> nat \<Rightarrow> nat \<Rightarrow> real" where
  \<comment> \<open>the first entry of row \<open>r\<close> of \<open>A\<close> in column \<open>c\<close>, 0 when there is none\<close>
  "air_lookup A_rowptr A_colinds A_data r c =
     (case find (\<lambda>k. c = A_colinds ! k) [A_rowptr ! r..<A_rowptr ! (r + 1)] of
        Some k \<Rightarrow> A_data ! k
      | None \<Rightarrow> 0)"

definition air_columns ::
  "nat list \<Rightarrow> real list \<Rightarrow> nat list \<Rightarrow> nat \<Rightarrow> nat list \<times> nat \<Rightarrow> nat list \<times> nat" where
  "air_columns C_colinds C_data splitting i st =
     (case st of (colinds, ind) \<Rightarrow>
        if strong_F C_colinds C_data splitting i
        then (colinds[ind := C_colinds ! i], ind + 1)
        else (colinds, ind))"

definition air_pass2_row ::
  "(real list \<Rightarrow> real list \<Rightarrow> nat \<Rightarrow> real list) \<Rightarrow> nat list \<Rightarrow> nat list \<Rightarrow> nat list \<Rightarrow> real list \<Rightarrow>
   nat list \<Rightarrow> nat list \<Rightarrow> real list \<Rightarrow> nat list \<Rightarrow> nat list \<Rightarrow>
   nat \<Rightarrow> nat list \<times> real list \<Rightarrow> nat list \<times> real list" where
  "air_pass2_row lsq rowptr A_rowptr A_colinds A_data C_rowptr C_colinds C_data Cpts splitting row st =
     (case st of (colinds, data) \<Rightarrow>
        let cpoint = Cpts ! row;
            (colinds1, ind) =
              fold (air_columns C_colinds C_data splitting)
                   [C_rowptr ! cpoint..<C_rowptr ! (cpoint + 1)] (colinds, rowptr ! row);
            size_N = ind - rowptr ! row;
            A0 = concat (map (\<lambda>j. map (\<lambda>i. air_lookup A_rowptr A_colinds A_data
                                                   (colinds1 ! j) (colinds1 ! i))
                                         [rowptr ! row..<ind])
                             [rowptr ! row..<ind]);
            b0 = map (\<lambda>i. air_lookup A_rowptr A_colinds A_data cpoint (colinds1 ! i))
                     [rowptr ! row..<ind];
            x = lsq A0 b0 size_N;
            data1 = fold (\<lambda>t data. data[rowptr ! row + t := x ! t]) [0..<size_N] data
        in (colinds1[ind := cpoint], data1[ind := 1]))"

definition approx_ideal_restriction_pass2 ::
  "(real list \<Rightarrow> real list \<Rightarrow> nat \<Rightarrow> real list) \<Rightarrow> nat list \<Rightarrow> nat list \<Rightarrow> real list \<Rightarrow>
   nat list \<Rightarrow> nat list \<Rightarrow> real list \<Rightarrow> nat list \<Rightarrow> nat list \<Rightarrow> real list \<Rightarrow> nat list \<Rightarrow> nat list \<Rightarrow>
   nat list \<times> real list" where
  "approx_ideal_restriction_pass2 lsq rowptr colinds data A_rowptr A_colinds A_data
       C_rowptr C_colinds C_data Cpts splitting =
     fold (air_pass2_row lsq rowptr A_rowptr A_colinds A_data C_rowptr C_colinds C_data Cpts splitting)
          [0..<length Cpts] (colinds, data)"

text \<open>
  Vocabulary for the statements: the size of the strongly connected F-neighbourhood of
  a C-point in the strength matrix with values \<open>C_data\<close>, and a sort that satisfies the
  contract of \<^verbatim>\<open>std::sort\<close> (a permutation, ascending in the second component).
\<close>

definition nf_size :: "nat list \<Rightarrow> nat list \<Rightarrow> real list \<Rightarrow> nat list \<Rightarrow> nat \<Rightarrow> nat" where
  "nf_size C_rowptr C_colinds C_data splitting cpoint =
     length (air_neighborhood C_rowptr C_colinds C_data splitting cpoint)"

definition sorts_by_second :: "((nat \<times> real) list \<Rightarrow> (nat \<times> real) list) \<Rightarrow> bool" where
  "sorts_by_second srt \<longleftrightarrow> (\<forall>xs. mset (srt xs) = mset xs \<and> sorted (map snd (srt xs)))"

definition in_row :: "nat list \<Rightarrow> nat \<Rightarrow> nat \<Rightarrow> bool" where
  "in_row C_rowptr cp p \<longleftrightarrow> C_rowptr ! cp \<le> p \<and> p < C_rowptr ! (cp + 1)"

definition air_wf :: "nat list \<Rightarrow> real list \<Rightarrow> nat list \<Rightarrow> bool" where
  "air_wf C_rowptr C_data Cpts \<longleftrightarrow>
     sorted C_rowptr \<and> distinct Cpts
     \<and> (\<forall>cp \<in> set Cpts. cp + 1 < length C_rowptr \<and> C_rowptr ! (cp + 1) \<le> length C_data)"

definition air_truncate ::
  "((nat \<times> real) list \<Rightarrow> (nat \<times> real) list) \<Rightarrow> nat list \<Rightarrow> nat list \<Rightarrow> nat list \<Rightarrow> nat \<Rightarrow> nat \<Rightarrow>
   real list \<Rightarrow> real list" where
  "air_truncate srt C_rowptr C_colinds splitting max_row cp D =
     (if max_row < length (air_neighborhood C_rowptr C_colinds D splitting cp)
      then fold (\<lambda>i C_data. C_data[fst (srt (air_neighborhood C_rowptr C_colinds D splitting cp) ! i) := 0])
                [max_row..<length (air_neighborhood C_rowptr C_colinds D splitting cp)] D
      else D)"

definition air_row_len :: "nat list \<Rightarrow> nat list \<Rightarrow> real list \<Rightarrow> nat list \<Rightarrow> nat list \<Rightarrow> nat \<Rightarrow> nat \<Rightarrow> nat" where
  "air_row_len C_rowptr C_colinds C_data Cpts splitting max_row r =
     min (nf_size C_rowptr C_colinds C_data splitting (Cpts ! r)) max_row"

section \<open>CLJP splitting\<close>

text \<open>
  The state of \<^verbatim>\<open>cljp_naive_splitting\<close>: the output array and the local vectors and
  counters. The seed weights, \<^verbatim>\<open>coloring[i] / ncolors\<close> from \<^verbatim>\<open>vertex_coloring_mis\<close>
  (\<^verbatim>\<open>graph.h\<close>) or \<^verbatim>\<open>rand() / RAND_MAX\<close>, come from outside this file and are the
  parameter \<open>w0\<close>. The counter \<^verbatim>\<open>pass\<close> is never read and is left out. The selection loop
  \<^verbatim>\<open>while (unassigned > 0)\<close> is a partial function: \<open>None\<close> is a run that never leaves
  it.

  The seeding is defined for \<open>0 < n\<close> only: with \<^verbatim>\<open>colorflag == 1\<close> and no node the source
  dereferences \<^verbatim>\<open>std::max_element\<close> of an empty vector. The statements about the whole
  function \<open>cljp_naive_splitting\<close> are made for \<open>0 < n\<close>.
\<close>

record cljp_state =
  cj_splitting :: "nat list"
  cj_weight :: "real list"
  cj_edgemark :: "int list"
  cj_c_dep_cache :: "int list"
  cj_D :: "nat list"
  cj_Dlist :: "nat list"
  cj_nD :: nat
  cj_unassigned :: int

definition fill :: "nat \<Rightarrow> 'a \<Rightarrow> 'a list \<Rightarrow> 'a list" where
  \<comment> \<open>\<^verbatim>\<open>std::fill(a, a + n, v)\<close>\<close>
  "fill n v a = fold (\<lambda>i a. a[i := v]) [0..<n] a"

definition cljp_add_dependents :: "nat \<Rightarrow> nat list \<Rightarrow> nat list \<Rightarrow> real list \<Rightarrow> real list" where
  "cljp_add_dependents n Sp Sj weight =
     fold (\<lambda>i weight.
             fold (\<lambda>jj weight. let j = Sj ! jj in
                     if i \<noteq> j then weight[j := weight ! j + 1] else weight)
                  [Sp ! i..<Sp ! (i + 1)] weight)
          [0..<n] weight"

definition cljp_init ::
  "nat \<Rightarrow> nat list \<Rightarrow> nat list \<Rightarrow> real list \<Rightarrow> nat list \<Rightarrow> cljp_state" where
  "cljp_init n Sp Sj w0 splitting =
     \<lparr> cj_splitting = fill n U_NODE splitting,
       cj_weight = cljp_add_dependents n Sp Sj w0,
       cj_edgemark = replicate (Sp ! n) 1,
       cj_c_dep_cache = replicate n (- 1),
       cj_D = replicate n 0,
       cj_Dlist = replicate n 0,
       cj_nD = 0,
       cj_unassigned = int n \<rparr>"

definition cljp_dominated :: "nat list \<Rightarrow> real list \<Rightarrow> nat list \<Rightarrow> nat list \<Rightarrow> nat \<Rightarrow> bool" where
  \<comment> \<open>the scan of a row of \<open>S\<close> or \<open>T\<close> that sets \<^verbatim>\<open>D[i] = 0\<close> and breaks\<close>
  "cljp_dominated splitting weight Xp Xj i \<longleftrightarrow>
     list_ex (\<lambda>jj. splitting ! (Xj ! jj) = U_NODE \<and> weight ! (Xj ! jj) > weight ! i)
             [Xp ! i..<Xp ! (i + 1)]"

definition cljp_select_node ::
  "nat list \<Rightarrow> nat list \<Rightarrow> nat list \<Rightarrow> nat list \<Rightarrow> nat \<Rightarrow> cljp_state \<Rightarrow> cljp_state" where
  "cljp_select_node Sp Sj Tp Tj i st =
     (if cj_splitting st ! i = U_NODE
      then (if \<not> cljp_dominated (cj_splitting st) (cj_weight st) Sp Sj i
               \<and> \<not> cljp_dominated (cj_splitting st) (cj_weight st) Tp Tj i
            then st\<lparr> cj_D := (cj_D st)[i := 1],
                     cj_Dlist := (cj_Dlist st)[cj_nD st := i],
                     cj_unassigned := cj_unassigned st - 1,
                     cj_nD := cj_nD st + 1 \<rparr>
            else st\<lparr> cj_D := (cj_D st)[i := 0] \<rparr>)
      else st\<lparr> cj_D := (cj_D st)[i := 0] \<rparr>)"

definition cljp_select ::
  "nat \<Rightarrow> nat list \<Rightarrow> nat list \<Rightarrow> nat list \<Rightarrow> nat list \<Rightarrow> cljp_state \<Rightarrow> cljp_state" where
  "cljp_select n Sp Sj Tp Tj st =
     fold (cljp_select_node Sp Sj Tp Tj) [0..<n] (st\<lparr> cj_nD := 0 \<rparr>)"

definition cljp_mark :: "cljp_state \<Rightarrow> cljp_state" where
  "cljp_mark st =
     fold (\<lambda>i st. st\<lparr> cj_splitting := (cj_splitting st)[cj_Dlist st ! i := C_NODE] \<rparr>)
          [0..<cj_nD st] st"

definition cljp_remove_edge :: "nat \<Rightarrow> nat \<Rightarrow> cljp_state \<Rightarrow> cljp_state" where
  \<comment> \<open>remove the edge at position \<open>jj\<close> whose column is \<open>j\<close>\<close>
  "cljp_remove_edge jj j st =
     (let st1 = st\<lparr> cj_edgemark := (cj_edgemark st)[jj := 0],
                     cj_weight := (cj_weight st)[j := cj_weight st ! j - 1] \<rparr>
      in if cj_weight st1 ! j < 1
         then st1\<lparr> cj_splitting := (cj_splitting st1)[j := F_NODE],
                    cj_unassigned := cj_unassigned st1 - 1 \<rparr>
         else st1)"

definition cljp_p5_edge :: "nat list \<Rightarrow> nat \<Rightarrow> cljp_state \<Rightarrow> cljp_state" where
  "cljp_p5_edge Sj jj st =
     (let j = Sj ! jj in
      if cj_splitting st ! j = U_NODE \<and> cj_edgemark st ! jj \<noteq> 0
      then cljp_remove_edge jj j st else st)"

definition cljp_p5 :: "nat list \<Rightarrow> nat list \<Rightarrow> cljp_state \<Rightarrow> cljp_state" where
  "cljp_p5 Sp Sj st =
     fold (\<lambda>iD st. let c = cj_Dlist st ! iD in
             fold (cljp_p5_edge Sj) [Sp ! c..<Sp ! (c + 1)] st)
          [0..<cj_nD st] st"

definition cljp_p6_cache :: "nat list \<Rightarrow> nat \<Rightarrow> nat \<Rightarrow> cljp_state \<Rightarrow> cljp_state" where
  "cljp_p6_cache Tj c jj st =
     (let j = Tj ! jj in
      if cj_splitting st ! j = U_NODE
      then st\<lparr> cj_c_dep_cache := (cj_c_dep_cache st)[j := int c] \<rparr> else st)"

definition cljp_p6_edge :: "nat list \<Rightarrow> nat \<Rightarrow> nat \<Rightarrow> cljp_state \<Rightarrow> cljp_state" where
  "cljp_p6_edge Sj c kk st =
     (let k = Sj ! kk in
      if cj_splitting st ! k = U_NODE \<and> cj_edgemark st ! kk \<noteq> 0
      then (if cj_c_dep_cache st ! k = int c then cljp_remove_edge kk k st else st)
      else st)"

definition cljp_p6_node :: "nat list \<Rightarrow> nat list \<Rightarrow> nat list \<Rightarrow> nat list \<Rightarrow> nat \<Rightarrow> cljp_state \<Rightarrow> cljp_state" where
  "cljp_p6_node Sp Sj Tp Tj c st =
     (let st1 = fold (cljp_p6_cache Tj c) [Tp ! c..<Tp ! (c + 1)] st
      in fold (\<lambda>jj st. let j = Tj ! jj in
                 fold (cljp_p6_edge Sj c) [Sp ! j..<Sp ! (j + 1)] st)
              [Tp ! c..<Tp ! (c + 1)] st1)"

definition cljp_p6 :: "nat list \<Rightarrow> nat list \<Rightarrow> nat list \<Rightarrow> nat list \<Rightarrow> cljp_state \<Rightarrow> cljp_state" where
  "cljp_p6 Sp Sj Tp Tj st =
     fold (\<lambda>iD st. cljp_p6_node Sp Sj Tp Tj (cj_Dlist st ! iD) st) [0..<cj_nD st] st"

definition cljp_pass ::
  "nat \<Rightarrow> nat list \<Rightarrow> nat list \<Rightarrow> nat list \<Rightarrow> nat list \<Rightarrow> cljp_state \<Rightarrow> cljp_state" where
  "cljp_pass n Sp Sj Tp Tj st =
     cljp_p6 Sp Sj Tp Tj (cljp_p5 Sp Sj (cljp_mark (cljp_select n Sp Sj Tp Tj st)))"

partial_function (option) cljp_loop ::
  "nat \<Rightarrow> nat list \<Rightarrow> nat list \<Rightarrow> nat list \<Rightarrow> nat list \<Rightarrow> cljp_state \<Rightarrow> cljp_state option" where
  "cljp_loop n Sp Sj Tp Tj st =
     (if cj_unassigned st > 0 then cljp_loop n Sp Sj Tp Tj (cljp_pass n Sp Sj Tp Tj st)
      else Some st)"

declare cljp_loop.simps [code]

definition cljp_finish :: "nat \<Rightarrow> nat list \<Rightarrow> cljp_state \<Rightarrow> cljp_state" where
  "cljp_finish n Sp st =
     st\<lparr> cj_edgemark :=
            fold (\<lambda>i edgemark. if edgemark ! i = 0 then edgemark[i := - 1] else edgemark)
                 [0..<Sp ! n] (cj_edgemark st),
          cj_splitting :=
            fold (\<lambda>i splitting. if splitting ! i = U_NODE then splitting[i := F_NODE] else splitting)
                 [0..<n] (cj_splitting st) \<rparr>"

definition cljp_naive_splitting ::
  "nat \<Rightarrow> nat list \<Rightarrow> nat list \<Rightarrow> nat list \<Rightarrow> nat list \<Rightarrow> real list \<Rightarrow> nat list \<Rightarrow> nat list option" where
  "cljp_naive_splitting n Sp Sj Tp Tj w0 splitting =
     (case cljp_loop n Sp Sj Tp Tj (cljp_init n Sp Sj w0 splitting) of
        None \<Rightarrow> None
      | Some st \<Rightarrow> Some (cj_splitting (cljp_finish n Sp st)))"

text \<open>Vocabulary for the statements about the splitters.\<close>

definition count_U :: "nat list \<Rightarrow> nat" where
  "count_U s = length (filter (\<lambda>v. v = U_NODE) s)"

definition mono_labels :: "nat list \<Rightarrow> nat list \<Rightarrow> bool" where
  \<comment> \<open>a label that is not \<open>U_NODE\<close> is kept\<close>
  "mono_labels s s' \<longleftrightarrow> length s' = length s \<and> (\<forall>i < length s. s ! i \<noteq> U_NODE \<longrightarrow> s' ! i = s ! i)"

definition csr_wf :: "nat \<Rightarrow> nat list \<Rightarrow> nat list \<Rightarrow> bool" where
  \<comment> \<open>the column indices of the \<open>n\<close> rows are nodes\<close>
  "csr_wf n Xp Xj \<longleftrightarrow>
     list_all (\<lambda>i. list_all (\<lambda>jj. Xj ! jj < n) [Xp ! i..<Xp ! (i + 1)]) [0..<n]"

definition cljp_candidate ::
  "nat list \<Rightarrow> nat list \<Rightarrow> nat list \<Rightarrow> nat list \<Rightarrow> nat list \<Rightarrow> real list \<Rightarrow> nat \<Rightarrow> bool" where
  "cljp_candidate Sp Sj Tp Tj s w i \<longleftrightarrow>
     s ! i = U_NODE \<and> \<not> cljp_dominated s w Sp Sj i \<and> \<not> cljp_dominated s w Tp Tj i"

definition labels_CFU :: "nat list \<Rightarrow> bool" where
  "labels_CFU s \<longleftrightarrow> (\<forall>i < length s. s ! i = F_NODE \<or> s ! i = C_NODE \<or> s ! i = U_NODE)"

definition cljp_inv :: "nat \<Rightarrow> cljp_state \<Rightarrow> bool" where
  "cljp_inv n st \<longleftrightarrow>
     length (cj_splitting st) = n \<and> labels_CFU (cj_splitting st)
     \<and> cj_unassigned st = int (count_U (cj_splitting st)) \<and> length (cj_Dlist st) = n"

subsection \<open>Pruning the edges\<close>

definition cljp_mid :: "nat \<Rightarrow> nat list \<Rightarrow> nat \<Rightarrow> cljp_state \<Rightarrow> bool" where
  "cljp_mid n Dl nD st \<longleftrightarrow> cljp_inv n st \<and> cj_Dlist st = Dl \<and> cj_nD st = nD"

definition arrays_sized :: "nat \<Rightarrow> cljp_state \<Rightarrow> bool" where
  "arrays_sized n st \<longleftrightarrow> length (cj_splitting st) = n \<and> length (cj_Dlist st) = n"

section \<open>Classical Ruge-Stuben splitting\<close>

text \<open>
  The state of \<^verbatim>\<open>rs_cf_splitting\<close>: the priorities \<open>lambda\<close>, the buckets
  (\<open>interval_ptr\<close>, \<open>interval_count\<close>), the permutation of the nodes and its inverse, and
  the output array. The \<^verbatim>\<open>assert\<close> is compiled out in a release build and is not part of
  the model.

  The priorities are natural numbers, and the arithmetic on them is the exact one. This is
  the arithmetic of the source only where no value leaves the range of the index type
  \<^verbatim>\<open>I\<close>, a 32-bit \<^verbatim>\<open>int\<close>: \<^verbatim>\<open>Tp[i+1] - Tp[i]\<close> is the length of a row for a row
  pointer that does not decrease (\<open>ptr_nondecreasing\<close>), the entries of \<^verbatim>\<open>influence\<close>
  are not negative, and \<^verbatim>\<open>n_nodes + 1\<close> and twice every initial priority, hence
  \<^verbatim>\<open>lambda_max * 2\<close>, are at most \<open>int_max\<close> (\<open>rs_int_range\<close>). Outside this range the
  source overflows a signed integer, the bucket arrays are too short for the priorities,
  and \<^verbatim>\<open>interval_count[lambda[i]]++\<close> writes out of bounds; the definitions below say
  nothing about such inputs. After the initialisation a priority is only incremented
  below \<^verbatim>\<open>n_nodes - 1\<close>, and every position is below \<^verbatim>\<open>n_nodes\<close>.

  The test \<^verbatim>\<open>lambda[i] == 1 && Tj[Tp[i]] == i\<close> reads \<^verbatim>\<open>Tj\<close> at the start of row \<open>i\<close> also
  when that row is empty and the priority 1 is the influence; the read is inside \<^verbatim>\<open>Tj\<close>
  when \<open>rs_reads_in_bounds\<close> holds.
\<close>

definition int_max :: nat where
  \<comment> \<open>\<^verbatim>\<open>std::numeric_limits<int>::max()\<close> for a 32-bit \<^verbatim>\<open>int\<close>\<close>
  "int_max = 2 ^ 31 - 1"

definition ptr_nondecreasing :: "nat \<Rightarrow> nat list \<Rightarrow> bool" where
  "ptr_nondecreasing n Xp \<longleftrightarrow> list_all (\<lambda>i. Xp ! i \<le> Xp ! (i + 1)) [0..<n]"

definition rs_reads_in_bounds :: "nat \<Rightarrow> nat list \<Rightarrow> nat list \<Rightarrow> nat list \<Rightarrow> bool" where
  "rs_reads_in_bounds n Tp Tj influence \<longleftrightarrow>
     list_all (\<lambda>i. Tp ! (i + 1) - Tp ! i + influence ! i \<noteq> 1 \<or> Tp ! i < length Tj) [0..<n]"

definition rs_int_range :: "nat \<Rightarrow> nat list \<Rightarrow> nat list \<Rightarrow> bool" where
  \<comment> \<open>\<^verbatim>\<open>n_nodes + 1\<close>, every \<^verbatim>\<open>lambda[i]\<close> and \<^verbatim>\<open>lambda_max * 2\<close> fit the index type\<close>
  "rs_int_range n Tp influence \<longleftrightarrow>
     n + 1 \<le> int_max
     \<and> list_all (\<lambda>i. 2 * (Tp ! (i + 1) - Tp ! i + influence ! i) \<le> int_max) [0..<n]"

record rs_state =
  rs_lambda :: "nat list"
  rs_interval_ptr :: "nat list"
  rs_interval_count :: "nat list"
  rs_index_to_node :: "nat list"
  rs_node_to_index :: "nat list"
  rs_splitting :: "nat list"

definition rs_lambda_max :: "nat \<Rightarrow> nat list \<Rightarrow> nat" where
  \<comment> \<open>the size of the bucket arrays\<close>
  "rs_lambda_max n lam =
     (let lambda_max = fold (\<lambda>i lambda_max. if lam ! i > lambda_max then lam ! i else lambda_max)
                            [0..<n] 0;
          lambda_max2 = lambda_max * 2
      in if n + 1 > lambda_max2 then n + 1 else lambda_max2)"

definition rs_place :: "nat list \<Rightarrow> nat \<Rightarrow> rs_state \<Rightarrow> rs_state" where
  "rs_place lam i st =
     (let lambda_i = lam ! i;
          index = rs_interval_ptr st ! lambda_i + rs_interval_count st ! lambda_i
      in st\<lparr> rs_index_to_node := (rs_index_to_node st)[index := i],
              rs_node_to_index := (rs_node_to_index st)[i := index],
              rs_interval_count := (rs_interval_count st)[lambda_i := rs_interval_count st ! lambda_i + 1] \<rparr>)"

definition rs_cumsum :: "nat \<Rightarrow> nat list \<times> nat list \<times> nat \<Rightarrow> nat list \<times> nat list \<times> nat" where
  "rs_cumsum i st =
     (case st of (interval_ptr, interval_count, cumsum) \<Rightarrow>
        (interval_ptr[i := cumsum], interval_count[i := 0], cumsum + interval_count ! i))"

definition rs_init ::
  "nat \<Rightarrow> nat list \<Rightarrow> nat list \<Rightarrow> nat list \<Rightarrow> nat list \<Rightarrow> rs_state" where
  "rs_init n Tp Tj influence splitting =
     (let lam = fold (\<lambda>i lam. lam[i := Tp ! (i + 1) - Tp ! i + influence ! i]) [0..<n] (replicate n 0);
          lambda_max = rs_lambda_max n lam;
          count0 = fold (\<lambda>i interval_count. interval_count[lam ! i := interval_count ! (lam ! i) + 1])
                        [0..<n] (replicate lambda_max 0);
          (ptr1, count1, cumsum) = fold rs_cumsum [0..<lambda_max] (replicate lambda_max 0, count0, 0);
          st = fold (rs_place lam) [0..<n]
                 \<lparr> rs_lambda = lam, rs_interval_ptr = ptr1, rs_interval_count = count1,
                   rs_index_to_node = replicate n 0, rs_node_to_index = replicate n 0,
                   rs_splitting = fill n U_NODE splitting \<rparr>
      in st\<lparr> rs_splitting :=
                fold (\<lambda>i splitting.
                        if lam ! i = 0 \<or> (lam ! i = 1 \<and> Tj ! (Tp ! i) = i)
                        then splitting[i := F_NODE] else splitting)
                     [0..<n] (rs_splitting st) \<rparr>)"

definition rs_swap :: "nat \<Rightarrow> nat \<Rightarrow> rs_state \<Rightarrow> rs_state" where
  \<comment> \<open>the two writes to \<open>node_to_index\<close>, then \<^verbatim>\<open>std::swap\<close> on \<open>index_to_node\<close>\<close>
  "rs_swap a b st =
     (let i2n = rs_index_to_node st;
          n2i1 = (rs_node_to_index st)[i2n ! a := b];
          n2i2 = n2i1[i2n ! b := a]
      in st\<lparr> rs_node_to_index := n2i2, rs_index_to_node := i2n[a := i2n ! b, b := i2n ! a] \<rparr>)"

definition rs_search_max :: "rs_state \<Rightarrow> nat \<Rightarrow> nat \<Rightarrow> nat \<Rightarrow> nat \<times> nat" where
  \<comment> \<open>\<open>(max_node, max_index)\<close> after the search over the bucket of \<open>lambda_i\<close>\<close>
  "rs_search_max st lambda_i i top_index =
     fold (\<lambda>j (max_node, max_index).
             if rs_index_to_node st ! j > max_node then (rs_index_to_node st ! j, j)
             else (max_node, max_index))
          [rs_interval_ptr st ! lambda_i..<rs_interval_ptr st ! lambda_i + rs_interval_count st ! lambda_i]
          (i, top_index)"

definition rs_increment :: "nat \<Rightarrow> rs_state \<Rightarrow> rs_state" where
  \<comment> \<open>move \<open>k\<close> to the end of its bucket and into the next one\<close>
  "rs_increment k st =
     (let lambda_k = rs_lambda st ! k;
          old_pos = rs_node_to_index st ! k;
          new_pos = rs_interval_ptr st ! lambda_k + rs_interval_count st ! lambda_k - 1;
          st1 = rs_swap old_pos new_pos st;
          cnt1 = (rs_interval_count st1)[lambda_k := rs_interval_count st1 ! lambda_k - 1];
          cnt2 = cnt1[lambda_k + 1 := cnt1 ! (lambda_k + 1) + 1]
      in st1\<lparr> rs_interval_count := cnt2,
               rs_interval_ptr := (rs_interval_ptr st1)[lambda_k + 1 := new_pos],
               rs_lambda := (rs_lambda st1)[k := rs_lambda st1 ! k + 1] \<rparr>)"

definition rs_decrement :: "nat \<Rightarrow> rs_state \<Rightarrow> rs_state" where
  \<comment> \<open>move \<open>j\<close> to the beginning of its bucket and into the previous one\<close>
  "rs_decrement j st =
     (let lambda_j = rs_lambda st ! j;
          old_pos = rs_node_to_index st ! j;
          new_pos = rs_interval_ptr st ! lambda_j;
          st1 = rs_swap old_pos new_pos st;
          cnt1 = (rs_interval_count st1)[lambda_j := rs_interval_count st1 ! lambda_j - 1];
          cnt2 = cnt1[lambda_j - 1 := cnt1 ! (lambda_j - 1) + 1];
          ptr1 = (rs_interval_ptr st1)[lambda_j := rs_interval_ptr st1 ! lambda_j + 1];
          ptr2 = ptr1[lambda_j - 1 := ptr1 ! lambda_j - cnt2 ! (lambda_j - 1)]
      in st1\<lparr> rs_interval_count := cnt2, rs_interval_ptr := ptr2,
               rs_lambda := (rs_lambda st1)[j := rs_lambda st1 ! j - 1] \<rparr>)"

definition rs_pre_f :: "nat list \<Rightarrow> nat \<Rightarrow> rs_state \<Rightarrow> rs_state" where
  "rs_pre_f Tj jj st =
     (let j = Tj ! jj in
      if rs_splitting st ! j = U_NODE
      then st\<lparr> rs_splitting := (rs_splitting st)[j := PRE_F_NODE] \<rparr> else st)"

definition rs_raise :: "nat \<Rightarrow> nat list \<Rightarrow> nat \<Rightarrow> rs_state \<Rightarrow> rs_state" where
  "rs_raise n Sj kk st =
     (let k = Sj ! kk in
      if rs_splitting st ! k = U_NODE
      then (if rs_lambda st ! k \<ge> n - 1 then st else rs_increment k st)
      else st)"

definition rs_make_f :: "nat \<Rightarrow> nat list \<Rightarrow> nat list \<Rightarrow> nat list \<Rightarrow> nat \<Rightarrow> rs_state \<Rightarrow> rs_state" where
  "rs_make_f n Sp Sj Tj jj st =
     (let j = Tj ! jj in
      if rs_splitting st ! j = PRE_F_NODE
      then fold (rs_raise n Sj) [Sp ! j..<Sp ! (j + 1)]
                (st\<lparr> rs_splitting := (rs_splitting st)[j := F_NODE] \<rparr>)
      else st)"

definition rs_lower :: "nat list \<Rightarrow> nat \<Rightarrow> rs_state \<Rightarrow> rs_state" where
  "rs_lower Sj jj st =
     (let j = Sj ! jj in
      if rs_splitting st ! j = U_NODE
      then (if rs_lambda st ! j = 0 then st else rs_decrement j st)
      else st)"

definition rs_promote ::
  "nat \<Rightarrow> nat list \<Rightarrow> nat list \<Rightarrow> nat list \<Rightarrow> nat list \<Rightarrow> nat \<Rightarrow> nat \<Rightarrow> rs_state \<Rightarrow> rs_state" where
  \<comment> \<open>the \<^verbatim>\<open>else\<close> branch of the main loop, after the bucket of \<open>lambda_i\<close> has lost a node\<close>
  "rs_promote n Sp Sj Tp Tj top_index lambda_i st =
     (let max_index = snd (rs_search_max st lambda_i (rs_index_to_node st ! top_index) top_index);
          st1 = rs_swap top_index max_index st;
          i = rs_index_to_node st1 ! top_index;
          st2 = st1\<lparr> rs_splitting := (rs_splitting st1)[i := C_NODE] \<rparr>;
          st3 = fold (rs_pre_f Tj) [Tp ! i..<Tp ! (i + 1)] st2;
          st4 = fold (rs_make_f n Sp Sj Tj) [Tp ! i..<Tp ! (i + 1)] st3
      in fold (rs_lower Sj) [Sp ! i..<Sp ! (i + 1)] st4)"

definition rs_step ::
  "nat \<Rightarrow> nat list \<Rightarrow> nat list \<Rightarrow> nat list \<Rightarrow> nat list \<Rightarrow> nat \<Rightarrow> rs_state \<Rightarrow> rs_state" where
  "rs_step n Sp Sj Tp Tj top_index st =
     (let i = rs_index_to_node st ! top_index;
          lambda_i = rs_lambda st ! i;
          st1 = st\<lparr> rs_interval_count :=
                       (rs_interval_count st)[lambda_i := rs_interval_count st ! lambda_i - 1] \<rparr>
      in if rs_splitting st1 ! i = F_NODE then st1
         else rs_promote n Sp Sj Tp Tj top_index lambda_i st1)"

definition rs_cf_splitting ::
  "nat \<Rightarrow> nat list \<Rightarrow> nat list \<Rightarrow> nat list \<Rightarrow> nat list \<Rightarrow> nat list \<Rightarrow> nat list \<Rightarrow> nat list" where
  "rs_cf_splitting n Sp Sj Tp Tj influence splitting =
     rs_splitting (fold (rs_step n Sp Sj Tp Tj) (rev [0..<n]) (rs_init n Tp Tj influence splitting))"

text \<open>
  Vocabulary for the statements about the buckets: the number of nodes in the buckets
  below \<open>l\<close>, the invariant of the main loop when \<open>m\<close> positions are still to be
  visited, the labels while the tentative F nodes of one iteration are pending, and the
  invariant of the counting sort that fills the buckets.
\<close>

definition pre_sum :: "nat list \<Rightarrow> nat \<Rightarrow> nat" where
  "pre_sum cnt l = (\<Sum>k < l. cnt ! k)"

definition rs_perm :: "nat \<Rightarrow> rs_state \<Rightarrow> bool" where
  \<comment> \<open>\<open>index_to_node\<close> and \<open>node_to_index\<close> are inverse permutations of the nodes\<close>
  "rs_perm n st \<longleftrightarrow>
     length (rs_index_to_node st) = n \<and> length (rs_node_to_index st) = n
     \<and> (\<forall>p < n. rs_index_to_node st ! p < n \<and> rs_node_to_index st ! (rs_index_to_node st ! p) = p)
     \<and> (\<forall>v < n. rs_node_to_index st ! v < n \<and> rs_index_to_node st ! (rs_node_to_index st ! v) = v)"

definition rs_buckets :: "nat \<Rightarrow> nat \<Rightarrow> rs_state \<Rightarrow> bool" where
  \<comment> \<open>the buckets tile the positions below \<open>m\<close> in the order of the priorities\<close>
  "rs_buckets n m st \<longleftrightarrow>
     length (rs_lambda st) = n
     \<and> length (rs_interval_ptr st) = length (rs_interval_count st)
     \<and> n + 1 \<le> length (rs_interval_count st)
     \<and> (\<forall>v < n. rs_lambda st ! v < length (rs_interval_count st))
     \<and> (\<forall>p < m. rs_interval_ptr st ! (rs_lambda st ! (rs_index_to_node st ! p)) \<le> p
                \<and> p < rs_interval_ptr st ! (rs_lambda st ! (rs_index_to_node st ! p))
                       + rs_interval_count st ! (rs_lambda st ! (rs_index_to_node st ! p)))
     \<and> (\<forall>l < length (rs_interval_count st). 0 < rs_interval_count st ! l
            \<longrightarrow> rs_interval_ptr st ! l = pre_sum (rs_interval_count st) l)
     \<and> pre_sum (rs_interval_count st) (length (rs_interval_count st)) = m"

definition rs_labels :: "nat \<Rightarrow> nat \<Rightarrow> rs_state \<Rightarrow> bool" where
  \<comment> \<open>every unassigned node is at a position below \<open>m\<close>\<close>
  "rs_labels n m st \<longleftrightarrow>
     length (rs_splitting st) = n
     \<and> (\<forall>v < n. rs_splitting st ! v = U_NODE \<longrightarrow> rs_node_to_index st ! v < m)"

definition rs_inv :: "nat \<Rightarrow> nat \<Rightarrow> rs_state \<Rightarrow> bool" where
  "rs_inv n m st \<longleftrightarrow> m \<le> n \<and> rs_perm n st \<and> rs_buckets n m st \<and> rs_labels n m st"

definition rs_pending :: "nat \<Rightarrow> nat set \<Rightarrow> rs_state \<Rightarrow> bool" where
  \<comment> \<open>the labels are final or unassigned, except for the tentative F nodes, which are all in \<open>X\<close>\<close>
  "rs_pending n X st \<longleftrightarrow>
     (\<forall>v < n. rs_splitting st ! v = F_NODE \<or> rs_splitting st ! v = C_NODE
              \<or> rs_splitting st ! v = U_NODE \<or> (rs_splitting st ! v = PRE_F_NODE \<and> v \<in> X))"

definition occ :: "nat list \<Rightarrow> nat \<Rightarrow> nat \<Rightarrow> nat" where
  \<comment> \<open>the number of nodes below \<open>k\<close> with priority \<open>l\<close>\<close>
  "occ lam l k = length (filter (\<lambda>i. lam ! i = l) [0..<k])"

definition rs_placed :: "nat \<Rightarrow> nat list \<Rightarrow> nat \<Rightarrow> rs_state \<Rightarrow> bool" where
  \<comment> \<open>the nodes below \<open>k\<close> have been written to the front of their buckets\<close>
  "rs_placed n lam k st \<longleftrightarrow>
     length (rs_index_to_node st) = n \<and> length (rs_node_to_index st) = n
     \<and> (\<forall>l < length (rs_interval_count st). rs_interval_count st ! l = occ lam l k)
     \<and> (\<forall>l < length (rs_interval_count st). \<forall>p.
           rs_interval_ptr st ! l \<le> p \<and> p < rs_interval_ptr st ! l + occ lam l k
           \<longrightarrow> rs_index_to_node st ! p < k \<and> lam ! (rs_index_to_node st ! p) = l
               \<and> rs_node_to_index st ! (rs_index_to_node st ! p) = p)
     \<and> (\<forall>i < k. rs_interval_ptr st ! (lam ! i) \<le> rs_node_to_index st ! i
               \<and> rs_node_to_index st ! i < rs_interval_ptr st ! (lam ! i) + occ lam (lam ! i) k
               \<and> rs_index_to_node st ! (rs_node_to_index st ! i) = i)"

section \<open>Facts on lists\<close>

lemma nth_list_update_total:
  "(D[i := v]) ! p = (if p = i \<and> p < length D then v else D ! p)"
  by (cases "i < length D") (auto simp: nth_list_update list_update_beyond not_less)

section \<open>Results on the strength of connection\<close>

lemma dbl_min_pos: "0 < dbl_min"
  by (simp add: dbl_min_def)

lemma upt_0_1: "[0..<1] = [0]"
  by simp

lemma upt_0_2: "[0..<2] = [0, 1]"
  by (simp add: upt_rec)

lemma upt_2_4: "[2..<4] = [2, 3]"
  by (simp add: upt_rec)

text \<open>
  Claim C8 (\<^verbatim>\<open>maximum_row_value\<close>): the claim says that \<open>x[i]\<close> is the maximum of
  \<^verbatim>\<open>mynorm\<close> over the entries of row \<open>i\<close>, and minus infinity for an empty row. The
  code starts the maximum at \<^verbatim>\<open>numeric_limits<F>::min()\<close>, a positive number. For the
  1 x 1 matrix whose only stored entry is 0 the code writes \<open>dbl_min\<close>, which is not the
  maximum 0 of the row; for the 1 x 1 matrix with an empty row it writes the same positive,
  finite number.
\<close>

theorem maximum_row_value_starts_at_min:
  "maximum_row_value abs dbl_min 1 [0] [0, 1] [0] [0] = [dbl_min]
   \<and> maximum_row_value abs dbl_min 1 [0] [0, 0] [] [] = [dbl_min]
   \<and> dbl_min \<noteq> Max {\<bar>0::real\<bar>} \<and> 0 < dbl_min"
  using dbl_min_pos
  by (simp add: maximum_row_value_def max_entry_of_row_def upt_0_1)

text \<open>
  Claim C1 (\<^verbatim>\<open>classical_strength_of_connection\<close>): the claim admits an off-diagonal
  entry iff its norm is at least \<open>\<theta>\<close> times the maximum off-diagonal norm of its row,
  also in a row whose off-diagonal entries all have magnitude zero. There the maximum is 0
  and every off-diagonal entry passes the test \<open>0 \<ge> \<theta> * 0\<close>. The code starts the maximum
  at \<^verbatim>\<open>numeric_limits<F>::min()\<close>, so its threshold is \<open>\<theta> * dbl_min > 0\<close> and the
  entries are dropped. The input is the 2 x 2 identity with its two zeros stored, and
  \<open>\<theta> = 1\<close>: the result has one entry per row, the diagonal.
\<close>

theorem classical_strength_drops_zero_offdiagonals:
  "classical_strength_of_connection abs dbl_min 2 1
     [0, 2, 4] [0, 1, 0, 1] [1, 0, 0, 1] [0, 0, 0] [0, 0, 0, 0] [0, 0, 0, 0]
   = ([0, 1, 2], [0, 1, 0, 0], [1, 1, 0, 0])
   \<and> \<bar>0::real\<bar> \<ge> 1 * Max {\<bar>0::real\<bar>}"
  using dbl_min_pos
  by (simp add: classical_strength_of_connection_def soc_row_def soc_entry_def
      max_offdiagonal_of_row_def upt_0_2 upt_2_4 not_le)


section \<open>Results on \<^verbatim>\<open>cr_helper\<close>\<close>

lemma F_C_length: "length (F_upto s k) + length (C_upto s k) = k"
  unfolding F_upto_def C_upto_def
  using sum_length_filter_compl[of "\<lambda>i. s ! i = 0" "[0..<k]"] by simp

lemma reorder_inv:
  assumes "length indices = n + 1" "k \<le> n"
  shows "case fold (cr_reorder_step s) [0..<k] (indices[0 := 0], 1, n) of
           (ind, nF, nC) \<Rightarrow>
             length ind = n + 1 \<and> nF = 1 + length (F_upto s k) \<and> nC = n - length (C_upto s k)
             \<and> ind ! 0 = length (F_upto s k)
             \<and> (\<forall>t < length (F_upto s k). ind ! (1 + t) = F_upto s k ! t)
             \<and> (\<forall>t < length (C_upto s k). ind ! (n - t) = C_upto s k ! t)"
  using assms(2)
proof (induction k)
  case 0
  then show ?case using assms(1) by (simp add: F_upto_def C_upto_def)
next
  case (Suc k)
  obtain ind nF nC where st: "fold (cr_reorder_step s) [0..<k] (indices[0 := 0], 1, n) = (ind, nF, nC)"
    by (metis prod_cases3)
  from Suc st have ih: "length ind = n + 1" "nF = 1 + length (F_upto s k)" "nC = n - length (C_upto s k)"
    "ind ! 0 = length (F_upto s k)"
    "\<forall>t < length (F_upto s k). ind ! (1 + t) = F_upto s k ! t"
    "\<forall>t < length (C_upto s k). ind ! (n - t) = C_upto s k ! t"
    by auto
  have kn: "k < n" using Suc.prems by simp
  have fc: "length (F_upto s k) + length (C_upto s k) = k" by (rule F_C_length)
  show ?case
  proof (cases "s ! k = 0")
    case True
    have F': "F_upto s (Suc k) = F_upto s k @ [k]" and C': "C_upto s (Suc k) = C_upto s k"
      using True by (simp_all add: F_upto_def C_upto_def)
    have step: "fold (cr_reorder_step s) [0..<Suc k] (indices[0 := 0], 1, n)
                = ((ind[nF := k])[0 := (ind[nF := k]) ! 0 + 1], nF + 1, nC)"
      using st True by (simp add: cr_reorder_step_def Let_def)
    have a: "\<forall>t < length (F_upto s k) + 1. ((ind[nF := k])[0 := (ind[nF := k]) ! 0 + 1]) ! (1 + t) = (F_upto s k @ [k]) ! t"
      using ih kn fc by (auto simp: nth_append nth_list_update)
    have b: "\<forall>t < length (C_upto s k). ((ind[nF := k])[0 := (ind[nF := k]) ! 0 + 1]) ! (n - t) = C_upto s k ! t"
      using ih kn fc by (auto simp: nth_list_update)
    show ?thesis unfolding step F' C' using ih a b kn fc by (simp add: nth_list_update)
  next
    case False
    have F': "F_upto s (Suc k) = F_upto s k" and C': "C_upto s (Suc k) = C_upto s k @ [k]"
      using False by (simp_all add: F_upto_def C_upto_def)
    have step: "fold (cr_reorder_step s) [0..<Suc k] (indices[0 := 0], 1, n)
                = (ind[nC := k], nF, nC - 1)"
      using st False by (simp add: cr_reorder_step_def Let_def)
    have a: "\<forall>t < length (F_upto s k). (ind[nC := k]) ! (1 + t) = F_upto s k ! t"
      using ih kn fc by (auto simp: nth_list_update)
    have b: "\<forall>t < length (C_upto s k) + 1. (ind[nC := k]) ! (n - t) = (C_upto s k @ [k]) ! t"
      using ih kn fc by (auto simp: nth_append nth_list_update)
    show ?thesis unfolding step F' C' using ih a b kn fc by (simp add: nth_list_update)
  qed
qed


lemma cr_reorder_correct:
  assumes len: "length indices = length splitting + 1"
  defines "n \<equiv> length splitting"
  defines "ind \<equiv> cr_reorder splitting indices"
  shows "ind ! 0 = length (F_upto splitting n)"
    and "take (ind ! 0) (tl ind) = F_upto splitting n"
    and "drop (ind ! 0 + 1) ind = rev (C_upto splitting n)"
proof -
  obtain ind' nF nC where st:
    "fold (cr_reorder_step splitting) [0..<n] (indices[0 := 0], 1, n) = (ind', nF, nC)"
    by (metis prod_cases3)
  have ind': "ind = ind'" unfolding ind_def cr_reorder_def Let_def n_def[symmetric] st by simp
  from reorder_inv[of indices n n splitting] len st
  have inv: "length ind = n + 1" "ind ! 0 = length (F_upto splitting n)"
    "\<forall>t < length (F_upto splitting n). ind ! (1 + t) = F_upto splitting n ! t"
    "\<forall>t < length (C_upto splitting n). ind ! (n - t) = C_upto splitting n ! t"
    by (auto simp: n_def ind')
  have fc: "length (F_upto splitting n) + length (C_upto splitting n) = n" by (rule F_C_length)
  show "ind ! 0 = length (F_upto splitting n)" by (rule inv)
  show "take (ind ! 0) (tl ind) = F_upto splitting n"
  proof (rule nth_equalityI)
    show "length (take (ind ! 0) (tl ind)) = length (F_upto splitting n)"
      using inv fc by simp
  next
    fix i assume "i < length (take (ind ! 0) (tl ind))"
    then have "i < length (F_upto splitting n)" using inv by simp
    then show "take (ind ! 0) (tl ind) ! i = F_upto splitting n ! i"
      using inv fc by (simp add: nth_tl)
  qed
  show "drop (ind ! 0 + 1) ind = rev (C_upto splitting n)"
  proof (rule nth_equalityI)
    show "length (drop (ind ! 0 + 1) ind) = length (rev (C_upto splitting n))"
      using inv fc by simp
  next
    fix i assume "i < length (drop (ind ! 0 + 1) ind)"
    then have i: "i < length (C_upto splitting n)" using inv fc by simp
    have pos: "ind ! 0 + 1 + i = n - (length (C_upto splitting n) - 1 - i)"
      using inv(2) fc i by arith
    have "drop (ind ! 0 + 1) ind ! i = ind ! (ind ! 0 + 1 + i)"
      using inv(1,2) fc i by (intro nth_drop) arith
    then have "drop (ind ! 0 + 1) ind ! i = ind ! (n - (length (C_upto splitting n) - 1 - i))"
      using pos by simp
    also have "\<dots> = C_upto splitting n ! (length (C_upto splitting n) - 1 - i)"
      using inv(4)[rule_format, of "length (C_upto splitting n) - 1 - i"] i by simp
    also have "\<dots> = rev (C_upto splitting n) ! i"
      using i by (simp add: rev_nth)
    finally show "drop (ind ! 0 + 1) ind ! i = rev (C_upto splitting n) ! i" .
  qed
qed

lemma labels_kept_refl: "labels_kept s s"
  by (simp add: labels_kept_def)

lemma labels_kept_step:
  assumes "labels_kept (s[p := 1]) s'"
  shows "labels_kept s s'"
proof -
  have "\<forall>i < length s. s[p := 1] ! i = 0 \<or> s[p := 1] ! i = 1"
    if "\<forall>i < length s. s ! i = 0 \<or> s ! i = 1"
  proof (intro allI impI)
    fix i assume "i < length s"
    with that show "s[p := 1] ! i = 0 \<or> s[p := 1] ! i = 1"
      by (cases "i = p") auto
  qed
  with assms show ?thesis by (simp add: labels_kept_def)
qed

lemma cr_independent_set_labels:
  assumes "cr_independent_set A_rowptr A_colinds Uindex splitting gamma omega = Some r"
  shows "labels_kept splitting (fst r)"
proof (rule cr_independent_set.raw_induct[where P = "\<lambda>_ _ _ s _ _ r. labels_kept s (fst r)", OF _ assms])
  fix rec :: "nat list \<Rightarrow> nat list \<Rightarrow> nat list \<Rightarrow> nat list \<Rightarrow> real list \<Rightarrow> real list \<Rightarrow>
   (nat list \<times> real list \<times> real list) option"
  fix A_rowptr A_colinds Uindex splitting gamma omega r
  assume IH: "\<And>A B U s g w r. rec A B U s g w = Some r \<Longrightarrow> labels_kept s (fst r)"
  assume step: "(case snd (cr_max_weight Uindex omega) of
        None \<Rightarrow> Some (splitting, gamma, omega)
      | Some new_pt \<Rightarrow>
          rec A_rowptr A_colinds Uindex
            (splitting[new_pt := 1]) (gamma[new_pt := 0])
            (cr_bump_neighbors A_rowptr A_colinds
               (fst (cr_remove_neighbors A_rowptr A_colinds new_pt omega))
               (snd (cr_remove_neighbors A_rowptr A_colinds new_pt omega)))) = Some r"
  show "labels_kept splitting (fst r)"
  proof (cases "snd (cr_max_weight Uindex omega)")
    case None
    with step show ?thesis by (auto simp: labels_kept_refl)
  next
    case (Some new_pt)
    with step have "rec A_rowptr A_colinds Uindex
            (splitting[new_pt := 1]) (gamma[new_pt := 0])
            (cr_bump_neighbors A_rowptr A_colinds
               (fst (cr_remove_neighbors A_rowptr A_colinds new_pt omega))
               (snd (cr_remove_neighbors A_rowptr A_colinds new_pt omega))) = Some r"
      by simp
    from IH[OF this] show ?thesis by (rule labels_kept_step)
  qed
qed

subsection \<open>The independent set is found in finitely many rounds\<close>

lemma cr_max_weight_Some:
  assumes "snd (cr_max_weight Uindex omega) = Some pt"
  shows "pt \<in> set Uindex \<and> 0 < omega ! pt"
proof -
  have "0 \<le> fst (cr_max_weight Uindex omega)
        \<and> (\<forall>pt. snd (cr_max_weight Uindex omega) = Some pt \<longrightarrow> pt \<in> set Uindex \<and> 0 < omega ! pt)"
    unfolding cr_max_weight_def
    by (rule fold_invariant[where Q = "\<lambda>i. i < length Uindex"])
       (auto simp: Let_def split: prod.splits)
  then show ?thesis using assms by blast
qed

lemma cr_remove_neighbors_fold:
  "length (snd (fold (\<lambda>i (neighbors, omega).
                  let temp = A_colinds ! i in (neighbors @ [temp], omega[temp := 0])) xs (nb, om)))
     = length om
   \<and> (\<forall>p. snd (fold (\<lambda>i (neighbors, omega).
                  let temp = A_colinds ! i in (neighbors @ [temp], omega[temp := 0])) xs (nb, om)) ! p
          = (if p < length om \<and> p \<in> (!) A_colinds ` set xs then 0 else om ! p))"
proof (induction xs arbitrary: nb om)
  case Nil
  then show ?case by simp
next
  case (Cons x xs)
  show ?case
    using Cons[of "nb @ [A_colinds ! x]" "om[A_colinds ! x := 0]"]
    by (auto simp: Let_def nth_list_update_total)
qed

lemma cr_remove_neighbors_nth:
  "length (snd (cr_remove_neighbors A_rowptr A_colinds new_pt omega)) = length omega"
  "snd (cr_remove_neighbors A_rowptr A_colinds new_pt omega) ! p
     = (if p < length omega
           \<and> p \<in> (!) A_colinds ` set [A_rowptr ! new_pt..<A_rowptr ! (new_pt + 1)]
        then 0 else omega ! p)"
  unfolding cr_remove_neighbors_def using cr_remove_neighbors_fold by blast+

lemma cr_bump_neighbors_zero:
  "length (cr_bump_neighbors A_rowptr A_colinds neighbors omega) = length omega
   \<and> (\<forall>p. omega ! p = 0 \<longrightarrow> cr_bump_neighbors A_rowptr A_colinds neighbors omega ! p = 0)"
  unfolding cr_bump_neighbors_def
proof (rule fold_invariant[where Q = "\<lambda>_. True"
         and P = "\<lambda>om. length om = length omega \<and> (\<forall>p. omega ! p = 0 \<longrightarrow> om ! p = 0)"])
  show "length omega = length omega \<and> (\<forall>p. omega ! p = 0 \<longrightarrow> omega ! p = 0)" by simp
  show "True" if "x \<in> set [0..<length neighbors]" for x by simp
  fix x and om :: "real list"
  assume om: "length om = length omega \<and> (\<forall>p. omega ! p = 0 \<longrightarrow> om ! p = 0)"
  show "length (let pt = neighbors ! x
                in fold (\<lambda>j omega.
                           let temp = A_colinds ! j
                           in if omega ! temp \<noteq> 0 then omega[temp := omega ! temp + 1] else omega)
                        [A_rowptr ! pt..<A_rowptr ! (pt + 1)] om) = length omega
        \<and> (\<forall>p. omega ! p = 0 \<longrightarrow>
               (let pt = neighbors ! x
                in fold (\<lambda>j omega.
                           let temp = A_colinds ! j
                           in if omega ! temp \<noteq> 0 then omega[temp := omega ! temp + 1] else omega)
                        [A_rowptr ! pt..<A_rowptr ! (pt + 1)] om) ! p = 0)"
    unfolding Let_def
  proof (rule fold_invariant[where Q = "\<lambda>_. True"
           and P = "\<lambda>om. length om = length omega \<and> (\<forall>p. omega ! p = 0 \<longrightarrow> om ! p = 0)"])
    show "length om = length omega \<and> (\<forall>p. omega ! p = 0 \<longrightarrow> om ! p = 0)" by (rule om)
    show "True" if "j \<in> set [A_rowptr ! (neighbors ! x)..<A_rowptr ! (neighbors ! x + 1)]" for j by simp
    fix j and om' :: "real list"
    assume "length om' = length omega \<and> (\<forall>p. omega ! p = 0 \<longrightarrow> om' ! p = 0)"
    then show "length (if om' ! (A_colinds ! j) \<noteq> 0
                       then om'[A_colinds ! j := om' ! (A_colinds ! j) + 1] else om') = length omega
               \<and> (\<forall>p. omega ! p = 0 \<longrightarrow>
                      (if om' ! (A_colinds ! j) \<noteq> 0
                       then om'[A_colinds ! j := om' ! (A_colinds ! j) + 1] else om') ! p = 0)"
      by (auto simp: nth_list_update_total)
  qed
qed

lemma cr_round_shrinks:
  assumes sel: "snd (cr_max_weight Uindex omega) = Some new_pt"
    and cand: "\<forall>pt \<in> set Uindex. pt < length omega
                 \<and> pt \<in> (!) A_colinds ` set [A_rowptr ! pt..<A_rowptr ! (pt + 1)]"
  defines "omega' \<equiv> cr_bump_neighbors A_rowptr A_colinds
                       (fst (cr_remove_neighbors A_rowptr A_colinds new_pt omega))
                       (snd (cr_remove_neighbors A_rowptr A_colinds new_pt omega))"
  shows "length omega' = length omega" and "card (cr_live omega') < card (cr_live omega)"
proof -
  let ?om1 = "snd (cr_remove_neighbors A_rowptr A_colinds new_pt omega)"
  note mw = cr_max_weight_Some[OF sel]
  have np: "new_pt < length omega"
    "new_pt \<in> (!) A_colinds ` set [A_rowptr ! new_pt..<A_rowptr ! (new_pt + 1)]"
    using mw cand by blast+
  note rm = cr_remove_neighbors_nth[of A_rowptr A_colinds new_pt omega]
  note bp = cr_bump_neighbors_zero[of A_rowptr A_colinds
      "fst (cr_remove_neighbors A_rowptr A_colinds new_pt omega)" ?om1, folded omega'_def]
  show len: "length omega' = length omega" using bp rm(1) by simp
  have z1: "?om1 ! new_pt = 0" using rm(2)[of new_pt] np by simp
  have keep1: "?om1 ! p = 0" if "omega ! p = 0" for p using rm(2)[of p] that by simp
  have z: "omega' ! new_pt = 0" using bp z1 by blast
  have keep: "omega' ! p = 0" if "omega ! p = 0" for p using bp keep1[OF that] by blast
  have sub: "cr_live omega' \<subseteq> cr_live omega" unfolding cr_live_def using keep len by auto
  have "new_pt \<in> cr_live omega" "new_pt \<notin> cr_live omega'"
    unfolding cr_live_def using mw np z by auto
  then have "cr_live omega' \<subset> cr_live omega" using sub by blast
  moreover have "finite (cr_live omega)" unfolding cr_live_def by simp
  ultimately show "card (cr_live omega') < card (cr_live omega)" by (rule psubset_card_mono[rotated])
qed

lemma cr_independent_set_terminates:
  assumes cand: "\<forall>pt \<in> set Uindex. pt < n
                 \<and> pt \<in> (!) A_colinds ` set [A_rowptr ! pt..<A_rowptr ! (pt + 1)]"
    and len: "length omega = n"
  shows "\<exists>r. cr_independent_set A_rowptr A_colinds Uindex splitting gamma omega = Some r"
  using len
proof (induction "card (cr_live omega)" arbitrary: omega splitting gamma rule: less_induct)
  case less
  show ?case
  proof (cases "snd (cr_max_weight Uindex omega)")
    case None
    then show ?thesis by (subst cr_independent_set.simps) simp
  next
    case (Some new_pt)
    have c: "\<forall>pt \<in> set Uindex. pt < length omega
                 \<and> pt \<in> (!) A_colinds ` set [A_rowptr ! pt..<A_rowptr ! (pt + 1)]"
      using cand less.prems by simp
    note sh = cr_round_shrinks[OF Some c]
    from less.hyps[OF sh(2), of "splitting[new_pt := 1]" "gamma[new_pt := 0]"] sh(1) less.prems
    obtain r where r: "cr_independent_set A_rowptr A_colinds Uindex
            (splitting[new_pt := 1]) (gamma[new_pt := 0])
            (cr_bump_neighbors A_rowptr A_colinds
               (fst (cr_remove_neighbors A_rowptr A_colinds new_pt omega))
               (snd (cr_remove_neighbors A_rowptr A_colinds new_pt omega))) = Some r"
      by auto
    have "cr_independent_set A_rowptr A_colinds Uindex splitting gamma omega = Some r"
      using Some r by (subst cr_independent_set.simps) simp
    then show ?thesis ..
  qed
qed

lemma cr_candidates_subset:
  "set (snd (cr_candidates e inf_norm thetacs indices gamma))
     \<subseteq> (!) indices ` set [1..<indices ! 0 + 1]"
  unfolding cr_candidates_def
  by (rule fold_invariant[where Q = "\<lambda>i. i \<in> set [1..<indices ! 0 + 1]"
        and P = "\<lambda>r. set (snd r) \<subseteq> (!) indices ` set [1..<indices ! 0 + 1]"])
     (auto simp: Let_def split: prod.splits)

lemma cr_weights_length:
  "length (cr_weights A_rowptr A_colinds splitting gamma Uindex omega) = length omega"
  unfolding cr_weights_def
  by (rule fold_invariant[where Q = "\<lambda>_. True"]) (auto simp: Let_def)

lemma cr_helper_returns:
  assumes "cr_diag_stored A_rowptr A_colinds indices (length splitting)"
  shows "\<exists>r. cr_helper A_rowptr A_colinds B e indices splitting gamma thetacs cost = Some r"
proof -
  obtain e1 inf_norm where sc: "cr_scale_e B indices e = (e1, inf_norm)"
    by (cases "cr_scale_e B indices e")
  obtain gamma1 Uindex where cd: "cr_candidates e1 inf_norm thetacs indices gamma = (gamma1, Uindex)"
    by (cases "cr_candidates e1 inf_norm thetacs indices gamma")
  define omega where
    "omega = cr_weights A_rowptr A_colinds splitting gamma1 Uindex (replicate (length splitting) 0)"
  have sub: "set Uindex \<subseteq> (!) indices ` set [1..<indices ! 0 + 1]"
    using cr_candidates_subset[of e1 inf_norm thetacs indices gamma] cd by simp
  have cand: "\<forall>pt \<in> set Uindex. pt < length splitting
                 \<and> pt \<in> (!) A_colinds ` set [A_rowptr ! pt..<A_rowptr ! (pt + 1)]"
  proof
    fix pt assume "pt \<in> set Uindex"
    then obtain i where i: "i \<in> set [1..<indices ! 0 + 1]" "pt = indices ! i" using sub by blast
    from assms i(1) have "indices ! i < length splitting"
      "list_ex (\<lambda>j. A_colinds ! j = indices ! i) [A_rowptr ! (indices ! i)..<A_rowptr ! (indices ! i + 1)]"
      unfolding cr_diag_stored_def list_all_iff by blast+
    then show "pt < length splitting \<and> pt \<in> (!) A_colinds ` set [A_rowptr ! pt..<A_rowptr ! (pt + 1)]"
      unfolding i(2) list_ex_iff by force
  qed
  have len: "length omega = length splitting" by (simp add: omega_def cr_weights_length)
  from cr_independent_set_terminates[OF cand len, of splitting gamma1] obtain r where
    "cr_independent_set A_rowptr A_colinds Uindex splitting gamma1 omega = Some r" by blast
  then show ?thesis
    unfolding cr_helper_def Let_def sc cd omega_def[symmetric]
    by (cases r) (simp add: sc cd omega_def[symmetric])
qed

text \<open>
  Claim C9 (\<^verbatim>\<open>cr_helper\<close>): the input labels are 0 or 1 and \<open>indices\<close> has one entry
  more than there are nodes. If the listed F nodes are nodes and their rows hold the
  diagonal entry, \<^verbatim>\<open>cr_helper\<close> returns. On every exit \<open>indices[0]\<close> is the number of nodes
  labelled 0, the positions \<open>1..indices[0]\<close> list those nodes in ascending order, and the
  positions after them list the nodes labelled 1 in descending order.
\<close>

theorem cr_helper_indices_rebuilt:
  assumes len: "length indices = length splitting + 1"
    and lab: "\<forall>i < length splitting. splitting ! i = 0 \<or> splitting ! i = 1"
  shows "(cr_diag_stored A_rowptr A_colinds indices (length splitting)
          \<longrightarrow> (\<exists>r. cr_helper A_rowptr A_colinds B e indices splitting gamma thetacs cost = Some r))
       \<and> (\<forall>e' indices' splitting' gamma' cost'.
            cr_helper A_rowptr A_colinds B e indices splitting gamma thetacs cost
              = Some (e', indices', splitting', gamma', cost')
            \<longrightarrow> indices' ! 0 = length (filter (\<lambda>i. splitting' ! i = 0) [0..<length splitting'])
              \<and> take (indices' ! 0) (tl indices')
                  = filter (\<lambda>i. splitting' ! i = 0) [0..<length splitting']
              \<and> drop (indices' ! 0 + 1) indices'
                  = rev (filter (\<lambda>i. splitting' ! i = 1) [0..<length splitting']))"
proof (intro conjI allI impI)
  assume "cr_diag_stored A_rowptr A_colinds indices (length splitting)"
  then show "\<exists>r. cr_helper A_rowptr A_colinds B e indices splitting gamma thetacs cost = Some r"
    by (rule cr_helper_returns)
next
  fix e' indices' splitting' gamma' cost'
  assume run: "cr_helper A_rowptr A_colinds B e indices splitting gamma thetacs cost
                = Some (e', indices', splitting', gamma', cost')"
  from run obtain Uindex gamma1 omega omega' where
    mis: "cr_independent_set A_rowptr A_colinds Uindex splitting gamma1 omega
          = Some (splitting', gamma', omega')"
    and ind: "indices' = cr_reorder splitting' indices"
    by (auto simp: cr_helper_def Let_def split: prod.splits option.splits)
  from cr_independent_set_labels[OF mis]
  have k: "length splitting' = length splitting"
    "\<forall>i < length splitting'. splitting' ! i = 0 \<or> splitting' ! i = 1"
    using lab by (auto simp: labels_kept_def)
  have C: "C_upto splitting' (length splitting') = filter (\<lambda>i. splitting' ! i = 1) [0..<length splitting']"
    unfolding C_upto_def using k(2) by (intro filter_cong) auto
  from cr_reorder_correct[of indices splitting'] len k(1)
  have r: "indices' ! 0 = length (filter (\<lambda>i. splitting' ! i = 0) [0..<length splitting'])
       \<and> take (indices' ! 0) (tl indices') = filter (\<lambda>i. splitting' ! i = 0) [0..<length splitting']
       \<and> drop (indices' ! 0 + 1) indices'
           = rev (filter (\<lambda>i. splitting' ! i = 1) [0..<length splitting'])"
    unfolding ind C[symmetric] by (simp add: F_upto_def)
  show "indices' ! 0 = length (filter (\<lambda>i. splitting' ! i = 0) [0..<length splitting'])"
    and "take (indices' ! 0) (tl indices') = filter (\<lambda>i. splitting' ! i = 0) [0..<length splitting']"
    and "drop (indices' ! 0 + 1) indices'
           = rev (filter (\<lambda>i. splitting' ! i = 1) [0..<length splitting'])"
    using r by blast+
qed

theorem cr_helper_indices_rebuilt_witness:
  "cr_diag_stored [0,2,5,7] [0,1,0,1,2,1,2] [3,0,1,2] (length [0, 0, 0::nat])
   \<and> cr_helper [0,2,5,7] [0,1,0,1,2,1,2] [1,1,1] [1,2,1] [3,0,1,2] [0,0,0] [0,0,0] (1/10) [0]
     = Some ([1, 2, 1], [2, 0, 2, 1], [0, 1, 0], [1 / 2, 0, 1 / 2], [6 / 7])
   \<and> [2, 0, 2, 1::nat] ! 0 = length (filter (\<lambda>i. [0, 1, 0::nat] ! i = 0) [0..<length [0, 1, 0::nat]])
       \<and> take ([2, 0, 2, 1::nat] ! 0) (tl [2, 0, 2, 1]) = filter (\<lambda>i. [0, 1, 0::nat] ! i = 0) [0..<length [0, 1, 0::nat]]
       \<and> drop ([2, 0, 2, 1::nat] ! 0 + 1) [2, 0, 2, 1]
           = rev (filter (\<lambda>i. [0, 1, 0::nat] ! i = 1) [0..<length [0, 1, 0::nat]])"
proof -
  have run: "cr_helper [0,2,5,7] [0,1,0,1,2,1,2] [1,1,1] [1,2,1] [3,0,1,2] [0,0,0] [0,0,0] (1/10) [0]
     = Some ([1, 2, 1], [2, 0, 2, 1], [0, 1, 0], [1 / 2, 0, 1 / 2], [6 / 7])"
    by code_simp
  have diag: "cr_diag_stored [0,2,5,7] [0,1,0,1,2,1,2] [3,0,1,2] (length [0, 0, 0::nat])"
    by code_simp
  have len: "length [3,0,1,2::nat] = length [0,0,0::nat] + 1" by simp
  have lab: "\<forall>i < length [0,0,0::nat]. [0,0,0::nat] ! i = 0 \<or> [0,0,0::nat] ! i = 1"
    by (simp add: nth_Cons')
  from cr_helper_indices_rebuilt[OF len lab, of "[0,2,5,7]" "[0,1,0,1,2,1,2]" "[1,1,1]" "[1,2,1]"
      "[0,0,0]" "1/10" "[0]"] run diag
  show ?thesis by simp
qed


section \<open>Results on the direct interpolation\<close>

lemma count_fold:
  "fold (\<lambda>jj nnz. if P jj then nnz + 1 else nnz) js (nnz::nat) = nnz + length (filter P js)"
  by (induction js arbitrary: nnz) auto

lemma interp_pass1_row_eq:
  "interp_pass1_row Sp Sj splitting i (Bp, nnz)
     = (Bp[i + 1 := nnz + row_count splitting Sp Sj i], nnz + row_count splitting Sp Sj i)"
  by (simp add: interp_pass1_row_def row_count_def strong_C_entries_def count_fold Let_def)

lemma pass1_inv:
  assumes "m < length Bp"
  shows "case fold (interp_pass1_row Sp Sj splitting) [0..<m] (Bp[0 := 0], 0) of
           (Bp', nnz) \<Rightarrow> length Bp' = length Bp \<and> Bp' ! 0 = 0 \<and> nnz = Bp' ! m
             \<and> (\<forall>i < m. Bp' ! (i + 1) = Bp' ! i + row_count splitting Sp Sj i)"
  using assms
proof (induction m)
  case 0
  then show ?case by simp
next
  case (Suc m)
  obtain Bp' nnz where st: "fold (interp_pass1_row Sp Sj splitting) [0..<m] (Bp[0 := 0], 0) = (Bp', nnz)"
    by (metis surj_pair)
  with Suc have ih: "length Bp' = length Bp" "Bp' ! 0 = 0" "nnz = Bp' ! m"
    "\<forall>i < m. Bp' ! (i + 1) = Bp' ! i + row_count splitting Sp Sj i"
    by auto
  have "\<forall>i < Suc m. Bp'[m + 1 := nnz + row_count splitting Sp Sj m] ! (i + 1)
        = Bp'[m + 1 := nnz + row_count splitting Sp Sj m] ! i + row_count splitting Sp Sj i"
  proof (intro allI impI)
    fix i assume "i < Suc m"
    then consider "i < m" | "i = m" by linarith
    then show "Bp'[m + 1 := nnz + row_count splitting Sp Sj m] ! (i + 1)
        = Bp'[m + 1 := nnz + row_count splitting Sp Sj m] ! i + row_count splitting Sp Sj i"
    proof cases
      case 1
      then show ?thesis using ih by simp
    next
      case 2
      then show ?thesis using ih Suc.prems by simp
    qed
  qed
  then show ?case using st ih Suc.prems by (simp add: interp_pass1_row_eq)
qed

lemma pass1_row_pointer:
  assumes "n_nodes < length Bp0" "Bp = rs_direct_interpolation_pass1 n_nodes Sp Sj splitting Bp0"
  shows "Bp ! 0 = 0" and "\<forall>i < n_nodes. Bp ! (i + 1) = Bp ! i + row_count splitting Sp Sj i"
  using pass1_inv[OF assms(1), where Sp=Sp and Sj=Sj and splitting=splitting] assms(2)
  by (auto simp: rs_direct_interpolation_pass1_def split: prod.splits)

lemma row_pointer_mono:
  assumes "\<forall>i < n. Bp ! (i + 1) = Bp ! i + c i" "i \<le> j" "j \<le> n"
  shows "Bp ! i \<le> (Bp ! j :: nat)"
  using assms(2,3)
proof (induction j)
  case 0
  then show ?case by simp
next
  case (Suc j)
  show ?case
  proof (cases "i = Suc j")
    case True
    then show ?thesis by simp
  next
    case False
    with Suc have "Bp ! i \<le> Bp ! j" by simp
    moreover have "Bp ! (j + 1) = Bp ! j + c j" using assms(1) Suc.prems by simp
    ultimately show ?thesis by simp
  qed
qed

lemma direct_entry_skip:
  "\<not> strong_C splitting Sj i jj \<Longrightarrow>
   direct_entry Sj Sx splitting i nc pc jj (Bj, Bx, nnz) = (Bj, Bx, nnz)"
  by (simp add: direct_entry_def)

lemma direct_entry_write:
  "strong_C splitting Sj i jj \<Longrightarrow>
   direct_entry Sj Sx splitting i nc pc jj (Bj, Bx, nnz)
     = (Bj[nnz := Sj ! jj], Bx[nnz := direct_value Sx nc pc jj], nnz + 1)"
  by (simp add: direct_entry_def direct_value_def)

lemma direct_entries:
  assumes "fold (direct_entry Sj Sx splitting i nc pc) js (Bj, Bx, nnz) = (Bj', Bx', nnz')"
    and "nnz + length (filter (strong_C splitting Sj i) js) \<le> length Bx"
    and "nnz + length (filter (strong_C splitting Sj i) js) \<le> length Bj"
  shows "nnz' = nnz + length (filter (strong_C splitting Sj i) js)
       \<and> length Bj' = length Bj \<and> length Bx' = length Bx
       \<and> (\<forall>p. p < nnz \<or> nnz' \<le> p \<longrightarrow> Bx' ! p = Bx ! p \<and> Bj' ! p = Bj ! p)
       \<and> (\<forall>k < length (filter (strong_C splitting Sj i) js).
             Bx' ! (nnz + k) = direct_value Sx nc pc (filter (strong_C splitting Sj i) js ! k)
           \<and> Bj' ! (nnz + k) = Sj ! (filter (strong_C splitting Sj i) js ! k))"
  using assms
proof (induction js arbitrary: Bj Bx nnz)
  case Nil
  then show ?case by simp
next
  case (Cons jj js)
  show ?case
  proof (cases "strong_C splitting Sj i jj")
    case False
    with Cons.prems have "fold (direct_entry Sj Sx splitting i nc pc) js (Bj, Bx, nnz) = (Bj', Bx', nnz')"
      by (simp add: direct_entry_skip)
    from Cons.IH[OF this] Cons.prems(2,3) False show ?thesis by simp
  next
    case True
    let ?Bj = "Bj[nnz := Sj ! jj]" and ?Bx = "Bx[nnz := direct_value Sx nc pc jj]"
    let ?fs = "filter (strong_C splitting Sj i) js"
    from True Cons.prems have run: "fold (direct_entry Sj Sx splitting i nc pc) js (?Bj, ?Bx, nnz + 1) = (Bj', Bx', nnz')"
      by (simp add: direct_entry_write)
    from True Cons.prems have b: "nnz + 1 + length ?fs \<le> length ?Bx" "nnz + 1 + length ?fs \<le> length ?Bj"
      by simp_all
    from Cons.IH[OF run b]
    have ih: "nnz' = nnz + 1 + length ?fs" "length Bj' = length Bj" "length Bx' = length Bx"
      "\<forall>p. p < nnz + 1 \<or> nnz' \<le> p \<longrightarrow> Bx' ! p = ?Bx ! p \<and> Bj' ! p = ?Bj ! p"
      "\<forall>k < length ?fs. Bx' ! (nnz + 1 + k) = direct_value Sx nc pc (?fs ! k)
           \<and> Bj' ! (nnz + 1 + k) = Sj ! (?fs ! k)"
      by simp_all
    have out: "\<forall>p. p < nnz \<or> nnz' \<le> p \<longrightarrow> Bx' ! p = Bx ! p \<and> Bj' ! p = Bj ! p"
      using ih(1,4) by auto
    have inn: "\<forall>k < length (jj # ?fs).
             Bx' ! (nnz + k) = direct_value Sx nc pc ((jj # ?fs) ! k)
           \<and> Bj' ! (nnz + k) = Sj ! ((jj # ?fs) ! k)"
    proof (intro allI impI)
      fix k assume k: "k < length (jj # ?fs)"
      show "Bx' ! (nnz + k) = direct_value Sx nc pc ((jj # ?fs) ! k)
           \<and> Bj' ! (nnz + k) = Sj ! ((jj # ?fs) ! k)"
      proof (cases k)
        case 0
        then show ?thesis using ih(4)[rule_format, of nnz] b by simp
      next
        case (Suc k')
        then show ?thesis using ih(5)[rule_format, of k'] k by simp
      qed
    qed
    show ?thesis using True ih(1,2,3) out inn by simp
  qed
qed

lemma length_direct_row_values:
  "length (direct_row_values Ap Aj Ax Sp Sj Sx splitting i) = row_count splitting Sp Sj i"
  by (simp add: direct_row_values_def row_count_def)

lemma direct_row_effect:
  assumes run: "direct_row Ap Aj Ax Sp Sj Sx splitting Bp i (Bj, Bx) = (Bj', Bx')"
    and bx: "Bp ! i + row_count splitting Sp Sj i \<le> length Bx"
    and bj: "Bp ! i + row_count splitting Sp Sj i \<le> length Bj"
  shows "length Bj' = length Bj \<and> length Bx' = length Bx
       \<and> (\<forall>p. p < Bp ! i \<or> Bp ! i + row_count splitting Sp Sj i \<le> p
               \<longrightarrow> Bx' ! p = Bx ! p \<and> Bj' ! p = Bj ! p)
       \<and> (\<forall>k < row_count splitting Sp Sj i.
             Bj' ! (Bp ! i + k) = fst (direct_row_values Ap Aj Ax Sp Sj Sx splitting i ! k)
           \<and> Bx' ! (Bp ! i + k) = snd (direct_row_values Ap Aj Ax Sp Sj Sx splitting i ! k))"
proof (cases "splitting ! i = C_NODE")
  case True
  with run have "Bj' = Bj[Bp ! i := i]" "Bx' = Bx[Bp ! i := 1]"
    by (simp_all add: direct_row_def)
  with True bx bj show ?thesis
    by (auto simp: row_count_def direct_row_values_def)
next
  case False
  obtain nc pc where co: "direct_coeffs Ap Aj Ax Sp Sj Sx splitting i = (nc, pc)"
    by (metis surj_pair)
  obtain Bj1 Bx1 nnz where f:
    "fold (direct_entry Sj Sx splitting i nc pc) [Sp ! i..<Sp ! (i + 1)] (Bj, Bx, Bp ! i) = (Bj1, Bx1, nnz)"
    by (metis prod_cases3)
  with run False co have eq: "Bj' = Bj1" "Bx' = Bx1"
    by (simp_all add: direct_row_def)
  from False have rc: "row_count splitting Sp Sj i
          = length (filter (strong_C splitting Sj i) [Sp ! i..<Sp ! (i + 1)])"
    by (simp add: row_count_def strong_C_entries_def)
  from direct_entries[OF f] bx bj rc
  have "nnz = Bp ! i + row_count splitting Sp Sj i \<and> length Bj1 = length Bj \<and> length Bx1 = length Bx
       \<and> (\<forall>p. p < Bp ! i \<or> nnz \<le> p \<longrightarrow> Bx1 ! p = Bx ! p \<and> Bj1 ! p = Bj ! p)
       \<and> (\<forall>k < row_count splitting Sp Sj i.
             Bx1 ! (Bp ! i + k) = direct_value Sx nc pc (strong_C_entries splitting Sp Sj i ! k)
           \<and> Bj1 ! (Bp ! i + k) = Sj ! (strong_C_entries splitting Sp Sj i ! k))"
    by (simp add: strong_C_entries_def)
  then show ?thesis
    using False co rc by (simp add: eq direct_row_values_def strong_C_entries_def)
qed

lemma direct_rows_inv:
  assumes rp: "\<forall>i < n. Bp ! (i + 1) = Bp ! i + row_count splitting Sp Sj i"
    and bx: "Bp ! n \<le> length Bx" and bj: "Bp ! n \<le> length Bj"
    and m: "m \<le> n"
  shows "case fold (direct_row Ap Aj Ax Sp Sj Sx splitting Bp) [0..<m] (Bj, Bx) of
           (Bj', Bx') \<Rightarrow> length Bj' = length Bj \<and> length Bx' = length Bx
             \<and> (\<forall>i < m. \<forall>k < row_count splitting Sp Sj i.
                   Bj' ! (Bp ! i + k) = fst (direct_row_values Ap Aj Ax Sp Sj Sx splitting i ! k)
                 \<and> Bx' ! (Bp ! i + k) = snd (direct_row_values Ap Aj Ax Sp Sj Sx splitting i ! k))"
  using m
proof (induction m)
  case 0
  then show ?case by simp
next
  case (Suc m)
  obtain Bj1 Bx1 where st:
    "fold (direct_row Ap Aj Ax Sp Sj Sx splitting Bp) [0..<m] (Bj, Bx) = (Bj1, Bx1)"
    by (metis surj_pair)
  with Suc have ih: "length Bj1 = length Bj" "length Bx1 = length Bx"
    "\<forall>i < m. \<forall>k < row_count splitting Sp Sj i.
        Bj1 ! (Bp ! i + k) = fst (direct_row_values Ap Aj Ax Sp Sj Sx splitting i ! k)
      \<and> Bx1 ! (Bp ! i + k) = snd (direct_row_values Ap Aj Ax Sp Sj Sx splitting i ! k)"
    by auto
  obtain Bj2 Bx2 where row: "direct_row Ap Aj Ax Sp Sj Sx splitting Bp m (Bj1, Bx1) = (Bj2, Bx2)"
    by (metis surj_pair)
  have mn: "m < n" using Suc.prems by simp
  have next_le: "Bp ! m + row_count splitting Sp Sj m \<le> Bp ! n"
    using rp mn row_pointer_mono[OF rp, of "m + 1" n] by simp
  from direct_row_effect[OF row] next_le bx bj ih(1,2)
  have eff: "length Bj2 = length Bj" "length Bx2 = length Bx"
    "\<forall>p. p < Bp ! m \<or> Bp ! m + row_count splitting Sp Sj m \<le> p
               \<longrightarrow> Bx2 ! p = Bx1 ! p \<and> Bj2 ! p = Bj1 ! p"
    "\<forall>k < row_count splitting Sp Sj m.
             Bj2 ! (Bp ! m + k) = fst (direct_row_values Ap Aj Ax Sp Sj Sx splitting m ! k)
           \<and> Bx2 ! (Bp ! m + k) = snd (direct_row_values Ap Aj Ax Sp Sj Sx splitting m ! k)"
    by simp_all
  have "\<forall>i < Suc m. \<forall>k < row_count splitting Sp Sj i.
        Bj2 ! (Bp ! i + k) = fst (direct_row_values Ap Aj Ax Sp Sj Sx splitting i ! k)
      \<and> Bx2 ! (Bp ! i + k) = snd (direct_row_values Ap Aj Ax Sp Sj Sx splitting i ! k)"
  proof (intro allI impI)
    fix i k assume i: "i < Suc m" and k: "k < row_count splitting Sp Sj i"
    show "Bj2 ! (Bp ! i + k) = fst (direct_row_values Ap Aj Ax Sp Sj Sx splitting i ! k)
      \<and> Bx2 ! (Bp ! i + k) = snd (direct_row_values Ap Aj Ax Sp Sj Sx splitting i ! k)"
    proof (cases "i = m")
      case True
      then show ?thesis using eff(4) k by simp
    next
      case False
      then have im: "i < m" using i by simp
      have "Bp ! i + row_count splitting Sp Sj i = Bp ! (i + 1)" using rp im mn by simp
      also have "\<dots> \<le> Bp ! m" using row_pointer_mono[OF rp, of "i + 1" m] im mn by simp
      finally have "Bp ! i + k < Bp ! m" using k by simp
      then show ?thesis using eff(3) ih(3) im k by simp
    qed
  qed
  then show ?case using st row eff(1,2) by simp
qed

lemma remap_columns_nth:
  assumes "nnz \<le> length Bj"
  shows "length (remap_columns cmap nnz Bj) = length Bj
       \<and> (\<forall>p < nnz. remap_columns cmap nnz Bj ! p = cmap ! (Bj ! p))
       \<and> (\<forall>p \<ge> nnz. remap_columns cmap nnz Bj ! p = Bj ! p)"
  using assms
proof (induction nnz)
  case 0
  then show ?case by (simp add: remap_columns_def)
next
  case (Suc nnz)
  then show ?case
    by (auto simp: remap_columns_def nth_list_update less_Suc_eq)
qed

lemma coarse_map_inv:
  "m \<le> n \<Longrightarrow>
   (case fold (coarse_map_step splitting) [0..<m] (replicate n 0, 0) of
      (cmap, csum) \<Rightarrow> length cmap = n \<and> csum = sum_list (map ((!) splitting) [0..<m])
          \<and> (\<forall>v < m. cmap ! v = sum_list (map ((!) splitting) [0..<v])))"
proof (induction m)
  case 0
  then show ?case by simp
next
  case (Suc m)
  then show ?case
    by (auto simp: coarse_map_step_def nth_list_update less_Suc_eq split: prod.splits)
qed

lemma coarse_map_nth:
  "v < n_nodes \<Longrightarrow> coarse_map n_nodes splitting ! v = sum_list (map ((!) splitting) [0..<v])"
  using coarse_map_inv[of n_nodes n_nodes splitting]
  by (auto simp: coarse_map_def split: prod.splits)

lemma sum_strong_fold:
  "fold (\<lambda>jj (sum_strong_pos, sum_strong_neg).
             if P jj
             then (if Sx ! jj < 0 then (sum_strong_pos, sum_strong_neg + Sx ! jj)
                   else (sum_strong_pos + Sx ! jj, sum_strong_neg))
             else (sum_strong_pos, sum_strong_neg)) js (p, n)
   = (p + (\<Sum>jj\<leftarrow>filter P js. if Sx ! jj < 0 then 0 else Sx ! jj),
      n + (\<Sum>jj\<leftarrow>filter P js. if Sx ! jj < (0::real) then Sx ! jj else 0))"
  by (induction js arbitrary: p n) auto

lemma sum_strong_eq:
  "sum_strong Sp Sj Sx splitting i
     = (spec_sum_strong_pos splitting Sp Sj Sx i, spec_sum_strong_neg splitting Sp Sj Sx i)"
  by (simp add: sum_strong_def sum_strong_fold spec_sum_strong_pos_def spec_sum_strong_neg_def
      strong_C_entries_def)

lemma sum_all_fold:
  "fold (\<lambda>jj (sum_all_pos, sum_all_neg, diag).
             if Aj ! jj = i then (sum_all_pos, sum_all_neg, diag + Ax ! jj)
             else (if Ax ! jj < 0 then (sum_all_pos, sum_all_neg + Ax ! jj, diag)
                   else (sum_all_pos + Ax ! jj, sum_all_neg, diag))) js (p, n, d)
   = (p + (\<Sum>jj\<leftarrow>js. if Aj ! jj \<noteq> i \<and> \<not> Ax ! jj < 0 then Ax ! jj else 0),
      n + (\<Sum>jj\<leftarrow>js. if Aj ! jj \<noteq> i \<and> Ax ! jj < 0 then Ax ! jj else 0),
      d + (\<Sum>jj\<leftarrow>js. if Aj ! jj = i then Ax ! jj else (0::real)))"
  by (induction js arbitrary: p n d) auto

lemma sum_all_eq:
  "sum_all Ap Aj Ax i = (spec_sum_all_pos Ap Aj Ax i, spec_sum_all_neg Ap Aj Ax i, spec_diag Ap Aj Ax i)"
  by (simp add: sum_all_def sum_all_fold spec_sum_all_pos_def spec_sum_all_neg_def spec_diag_def)

lemma direct_coeffs_eq:
  "direct_coeffs Ap Aj Ax Sp Sj Sx splitting i
     = (- direct_alpha Ap Aj Ax Sp Sj Sx splitting i / direct_diag Ap Aj Ax Sp Sj Sx splitting i,
        - direct_beta Ap Aj Ax Sp Sj Sx splitting i / direct_diag Ap Aj Ax Sp Sj Sx splitting i)"
  by (simp add: direct_coeffs_def sum_strong_eq sum_all_eq direct_alpha_def direct_beta_def
      direct_diag_def Let_def)

text \<open>
  Claim C5 (\<^verbatim>\<open>rs_direct_interpolation_pass2\<close>): for a row \<open>i\<close> that is not a C-node,
  with the row pointer computed by pass 1, the weight written for the \<open>k\<close>-th strong
  off-diagonal C-neighbour \<open>j = Sj[jj]\<close> of the row, at position \<open>Bp[i] + k\<close>, is
  \<open>- \<alpha> * Sx[jj] / diag\<close> when \<open>Sx[jj] < 0\<close> and \<open>- \<beta> * Sx[jj] / diag\<close> otherwise, where
  \<open>\<beta> = 0\<close> and \<open>diag\<close> has \<open>sum_all_pos\<close> added when \<open>sum_strong_pos = 0\<close>
  (\<open>direct_beta\<close>, \<open>direct_diag\<close>); its column is the coarse index of \<open>j\<close>, the number of
  C-nodes below \<open>j\<close>. In scenario S4 (nodes \<open>i = 0\<close>, \<open>j = 1\<close>) the row of \<open>P\<close> is the
  single value \<open>1/2\<close> at column 0, the coarse index of \<open>j\<close>.
\<close>

theorem direct_interpolation_weights:
  assumes "n_nodes < length Bp0"
    and "Bp = rs_direct_interpolation_pass1 n_nodes Sp Sj splitting Bp0"
    and "Bp ! n_nodes \<le> length Bj" and "Bp ! n_nodes \<le> length Bx"
    and "i < n_nodes" and "splitting ! i \<noteq> C_NODE"
    and "k < length (strong_C_entries splitting Sp Sj i)"
    and "jj = strong_C_entries splitting Sp Sj i ! k"
    and "Sj ! jj < n_nodes"
    and "direct_diag Ap Aj Ax Sp Sj Sx splitting i \<noteq> 0"
  shows "snd (rs_direct_interpolation_pass2 n_nodes Ap Aj Ax Sp Sj Sx splitting Bp Bj Bx) ! (Bp ! i + k)
           = (if Sx ! jj < 0
              then - direct_alpha Ap Aj Ax Sp Sj Sx splitting i * Sx ! jj
                     / direct_diag Ap Aj Ax Sp Sj Sx splitting i
              else - direct_beta Ap Aj Ax Sp Sj Sx splitting i * Sx ! jj
                     / direct_diag Ap Aj Ax Sp Sj Sx splitting i)
       \<and> fst (rs_direct_interpolation_pass2 n_nodes Ap Aj Ax Sp Sj Sx splitting Bp Bj Bx) ! (Bp ! i + k)
           = sum_list (map ((!) splitting) [0..<Sj ! jj])
       \<and> rs_direct_interpolation_pass2 2 [0, 2, 3] [0, 1, 1] [4, -2, 4] [0, 2, 3] [1, 0, 1] [-2, 4, 4]
            [F_NODE, C_NODE] (rs_direct_interpolation_pass1 2 [0, 2, 3] [1, 0, 1] [F_NODE, C_NODE] [0, 0, 0])
            [0, 0] [0, 0]
           = ([0, 0], [1 / 2, 1])"
proof -
  note rp = pass1_row_pointer[OF assms(1,2)]
  obtain Bj1 Bx1 where st:
    "fold (direct_row Ap Aj Ax Sp Sj Sx splitting Bp) [0..<n_nodes] (Bj, Bx) = (Bj1, Bx1)"
    by (metis surj_pair)
  from direct_rows_inv[OF rp(2) assms(4,3) order_refl, of Ap Aj Ax Sx] st
  have inv: "length Bj1 = length Bj"
    "\<forall>i < n_nodes. \<forall>k < row_count splitting Sp Sj i.
        Bj1 ! (Bp ! i + k) = fst (direct_row_values Ap Aj Ax Sp Sj Sx splitting i ! k)
      \<and> Bx1 ! (Bp ! i + k) = snd (direct_row_values Ap Aj Ax Sp Sj Sx splitting i ! k)"
    by auto
  have k: "k < row_count splitting Sp Sj i" using assms(6,7) by (simp add: row_count_def)
  have vals: "direct_row_values Ap Aj Ax Sp Sj Sx splitting i ! k
        = (Sj ! jj, direct_value Sx (- direct_alpha Ap Aj Ax Sp Sj Sx splitting i / direct_diag Ap Aj Ax Sp Sj Sx splitting i)
                     (- direct_beta Ap Aj Ax Sp Sj Sx splitting i / direct_diag Ap Aj Ax Sp Sj Sx splitting i) jj)"
    using assms(6,7,8) by (simp add: direct_row_values_def direct_coeffs_eq)
  have pos: "Bp ! i + k < Bp ! n_nodes"
  proof -
    have "Bp ! i + row_count splitting Sp Sj i = Bp ! (i + 1)" using rp(2) assms(5) by simp
    also have "\<dots> \<le> Bp ! n_nodes" using row_pointer_mono[OF rp(2), of "i + 1" n_nodes] assms(5) by simp
    finally show ?thesis using k by simp
  qed
  have out: "rs_direct_interpolation_pass2 n_nodes Ap Aj Ax Sp Sj Sx splitting Bp Bj Bx
        = (remap_columns (coarse_map n_nodes splitting) (Bp ! n_nodes) Bj1, Bx1)"
    by (simp add: rs_direct_interpolation_pass2_def st)
  have bx: "Bx1 ! (Bp ! i + k) = direct_value Sx (- direct_alpha Ap Aj Ax Sp Sj Sx splitting i / direct_diag Ap Aj Ax Sp Sj Sx splitting i)
                     (- direct_beta Ap Aj Ax Sp Sj Sx splitting i / direct_diag Ap Aj Ax Sp Sj Sx splitting i) jj"
    using inv(2) assms(5) k vals by simp
  have bj: "Bj1 ! (Bp ! i + k) = Sj ! jj"
    using inv(2) assms(5) k vals by simp
  have rm: "remap_columns (coarse_map n_nodes splitting) (Bp ! n_nodes) Bj1 ! (Bp ! i + k)
          = coarse_map n_nodes splitting ! (Sj ! jj)"
    using remap_columns_nth[of "Bp ! n_nodes" Bj1 "coarse_map n_nodes splitting"] assms(3) inv(1) pos bj
    by simp
  have s4: "rs_direct_interpolation_pass2 2 [0, 2, 3] [0, 1, 1] [4, -2, 4] [0, 2, 3] [1, 0, 1] [-2, 4, 4]
            [F_NODE, C_NODE] (rs_direct_interpolation_pass1 2 [0, 2, 3] [1, 0, 1] [F_NODE, C_NODE] [0, 0, 0])
            [0, 0] [0, 0]
           = ([0, 0], [1 / 2, 1])"
    by code_simp
  show ?thesis
    using bx rm s4 by (simp add: out direct_value_def coarse_map_nth[OF assms(9)])
qed

theorem direct_interpolation_weights_witness:
  "snd (rs_direct_interpolation_pass2 2 [0, 2, 3] [0, 1, 1] [4, -2, 4] [0, 2, 3] [1, 0, 1] [-2, 4, 4]
          [F_NODE, C_NODE] [0, 1, 2] [0, 0] [0, 0]) ! 0 = 1 / 2
   \<and> fst (rs_direct_interpolation_pass2 2 [0, 2, 3] [0, 1, 1] [4, -2, 4] [0, 2, 3] [1, 0, 1] [-2, 4, 4]
          [F_NODE, C_NODE] [0, 1, 2] [0, 0] [0, 0]) ! 0 = 0
   \<and> direct_alpha [0, 2, 3] [0, 1, 1] [4, -2, 4] [0, 2, 3] [1, 0, 1] [-2, 4, 4] [F_NODE, C_NODE] 0 = 1
   \<and> direct_beta [0, 2, 3] [0, 1, 1] [4, -2, 4] [0, 2, 3] [1, 0, 1] [-2, 4, 4] [F_NODE, C_NODE] 0 = 0
   \<and> direct_diag [0, 2, 3] [0, 1, 1] [4, -2, 4] [0, 2, 3] [1, 0, 1] [-2, 4, 4] [F_NODE, C_NODE] 0 = 4"
proof -
  have a: "direct_alpha [0, 2, 3] [0, 1, 1] [4, -2, 4] [0, 2, 3] [1, 0, 1] [-2, 4, 4] [F_NODE, C_NODE] 0 = 1"
    by code_simp
  have b: "direct_beta [0, 2, 3] [0, 1, 1] [4, -2, 4] [0, 2, 3] [1, 0, 1] [-2, 4, 4] [F_NODE, C_NODE] 0 = 0"
    by code_simp
  have d: "direct_diag [0, 2, 3] [0, 1, 1] [4, -2, 4] [0, 2, 3] [1, 0, 1] [-2, 4, 4] [F_NODE, C_NODE] 0 = 4"
    by code_simp
  have h1: "2 < length [0, 0, 0::nat]" by simp
  have h2: "[0, 1, 2] = rs_direct_interpolation_pass1 2 [0, 2, 3] [1, 0, 1] [F_NODE, C_NODE] [0, 0, 0]"
    by code_simp
  have h3: "[0, 1, 2] ! 2 \<le> length [0, 0::nat]" by simp
  have h4: "[0, 1, 2] ! 2 \<le> length [0, 0::real]" by simp
  have h5: "(0::nat) < 2" by simp
  have h6: "[F_NODE, C_NODE] ! 0 \<noteq> C_NODE" by code_simp
  have h7: "0 < length (strong_C_entries [F_NODE, C_NODE] [0, 2, 3] [1, 0, 1] 0)" by code_simp
  have h8: "0 = strong_C_entries [F_NODE, C_NODE] [0, 2, 3] [1, 0, 1] 0 ! 0" by code_simp
  have h9: "[1, 0, 1] ! 0 < (2::nat)" by simp
  have h10: "direct_diag [0, 2, 3] [0, 1, 1] [4, -2, 4] [0, 2, 3] [1, 0, 1] [-2, 4, 4] [F_NODE, C_NODE] 0 \<noteq> 0"
    using d by simp
  from direct_interpolation_weights[OF h1 h2 h3 h4 h5 h6 h7 h8 h9 h10] a b d
  show ?thesis by (simp add: F_NODE_def)
qed

section \<open>Results on the approximate ideal restriction\<close>

lemma zero_fold:
  "length (fold (\<lambda>t D. D[f t := (0::real)]) ts D) = length D
   \<and> (\<forall>p. fold (\<lambda>t D. D[f t := 0]) ts D ! p
            = (if p \<in> f ` set ts \<and> p < length D then 0 else D ! p))"
proof (induction ts arbitrary: D)
  case Nil
  then show ?case by simp
next
  case (Cons t ts)
  show ?case
    using Cons.IH[of "D[f t := 0]"] by (auto simp: nth_list_update_total)
qed

lemma length_filter_notin:
  assumes "distinct xs"
  shows "length (filter (\<lambda>p. p \<notin> Z) xs) = card (set xs - Z)"
proof -
  have "{x. x \<notin> Z} \<inter> set xs = set xs - Z" by auto
  then show ?thesis using distinct_length_filter[OF assms, of "\<lambda>p. p \<notin> Z"] by simp
qed

lemma neighborhood_positions:
  "map fst (air_neighborhood C_rowptr C_colinds D splitting cp)
     = filter (strong_F C_colinds D splitting) [C_rowptr ! cp..<C_rowptr ! (cp + 1)]"
  by (simp add: air_neighborhood_def comp_def)

lemma nf_size_filter:
  "nf_size C_rowptr C_colinds D splitting cp
     = length (filter (strong_F C_colinds D splitting) [C_rowptr ! cp..<C_rowptr ! (cp + 1)])"
  by (simp add: nf_size_def air_neighborhood_def)

lemma nf_size_cong:
  assumes "\<forall>p. C_rowptr ! cp \<le> p \<and> p < C_rowptr ! (cp + 1) \<longrightarrow> D' ! p = D ! p"
  shows "nf_size C_rowptr C_colinds D' splitting cp = nf_size C_rowptr C_colinds D splitting cp"
    and "air_neighborhood C_rowptr C_colinds D' splitting cp
         = air_neighborhood C_rowptr C_colinds D splitting cp"
proof -
  have "filter (strong_F C_colinds D' splitting) [C_rowptr ! cp..<C_rowptr ! (cp + 1)]
      = filter (strong_F C_colinds D splitting) [C_rowptr ! cp..<C_rowptr ! (cp + 1)]"
    using assms by (intro filter_cong) (auto simp: strong_F_def)
  then show "nf_size C_rowptr C_colinds D' splitting cp = nf_size C_rowptr C_colinds D splitting cp"
    by (simp add: nf_size_filter)
  show "air_neighborhood C_rowptr C_colinds D' splitting cp
         = air_neighborhood C_rowptr C_colinds D splitting cp"
    unfolding air_neighborhood_def
    using assms \<open>filter (strong_F C_colinds D' splitting) [C_rowptr ! cp..<C_rowptr ! (cp + 1)]
      = filter (strong_F C_colinds D splitting) [C_rowptr ! cp..<C_rowptr ! (cp + 1)]\<close>
    by (auto intro!: map_cong)
qed

lemma truncate_row:
  fixes D :: "real list"
  assumes perm: "mset s = mset (air_neighborhood C_rowptr C_colinds D splitting cp)"
    and big: "max_row < length (air_neighborhood C_rowptr C_colinds D splitting cp)"
    and len: "C_rowptr ! (cp + 1) \<le> length D"
  defines "D' \<equiv> fold (\<lambda>i C_data. C_data[fst (s ! i) := 0])
                      [max_row..<length (air_neighborhood C_rowptr C_colinds D splitting cp)] D"
  shows "nf_size C_rowptr C_colinds D' splitting cp = max_row"
    and "length D' = length D"
    and "\<forall>p. \<not> (C_rowptr ! cp \<le> p \<and> p < C_rowptr ! (cp + 1)) \<longrightarrow> D' ! p = D ! p"
proof -
  let ?nb = "air_neighborhood C_rowptr C_colinds D splitting cp"
  let ?row = "[C_rowptr ! cp..<C_rowptr ! (cp + 1)]"
  let ?ps = "map fst ?nb"
  let ?ss = "map fst s"
  let ?Z = "(\<lambda>i. fst (s ! i)) ` set [max_row..<length ?nb]"
  have ls: "length s = length ?nb" using perm by (metis size_mset)
  have ps: "?ps = filter (strong_F C_colinds D splitting) ?row" by (rule neighborhood_positions)
  then have dps: "distinct ?ps" by simp
  have mss: "mset ?ss = mset ?ps" using perm by (metis mset_map)
  then have dss: "distinct ?ss" using dps by (metis mset_eq_imp_distinct_iff)
  have sss: "set ?ss = set ?ps" using mss by (metis mset_eq_setD)
  have Z: "?Z = set (drop max_row ?ss)"
  proof -
    have "drop max_row ?ss = map (\<lambda>i. fst (s ! i)) [max_row..<length ?nb]"
      using ls by (intro nth_equalityI) (auto simp: nth_append)
    then show ?thesis by simp
  qed
  have Zsub: "?Z \<subseteq> set ?ps" unfolding Z using sss by (metis set_drop_subset)
  have D'nth: "\<forall>p. D' ! p = (if p \<in> ?Z \<and> p < length D then 0 else D ! p)"
    and D'len: "length D' = length D"
    unfolding D'_def using zero_fold[of "\<lambda>i. fst (s ! i)" "[max_row..<length ?nb]" D] by auto
  show "length D' = length D" by (rule D'len)
  show "\<forall>p. \<not> (C_rowptr ! cp \<le> p \<and> p < C_rowptr ! (cp + 1)) \<longrightarrow> D' ! p = D ! p"
  proof (intro allI impI)
    fix p assume "\<not> (C_rowptr ! cp \<le> p \<and> p < C_rowptr ! (cp + 1))"
    then have "p \<notin> set ?ps" unfolding ps by auto
    then have "p \<notin> ?Z" using Zsub by blast
    then show "D' ! p = D ! p" using D'nth by simp
  qed
  have keep: "filter (strong_F C_colinds D' splitting) ?row = filter (\<lambda>p. p \<notin> ?Z) ?ps"
  proof -
    have "filter (strong_F C_colinds D' splitting) ?row
          = filter (\<lambda>p. strong_F C_colinds D splitting p \<and> p \<notin> ?Z) ?row"
    proof (rule filter_cong[OF refl])
      fix p assume "p \<in> set ?row"
      then have "p < length D" using len by simp
      then show "strong_F C_colinds D' splitting p = (strong_F C_colinds D splitting p \<and> p \<notin> ?Z)"
        using D'nth by (auto simp: strong_F_def)
    qed
    also have "\<dots> = filter (\<lambda>p. p \<notin> ?Z) ?ps"
      unfolding ps by (simp add: conj_commute)
    finally show ?thesis .
  qed
  have "length (filter (\<lambda>p. p \<notin> ?Z) ?ps) = card (set ?ps - ?Z)"
    using dps by (rule length_filter_notin)
  also have "set ?ps - ?Z = set (take max_row ?ss)"
  proof -
    have "set ?ss = set (take max_row ?ss) \<union> set (drop max_row ?ss)"
      by (metis append_take_drop_id set_append)
    moreover have "set (take max_row ?ss) \<inter> set (drop max_row ?ss) = {}"
      using dss by (metis append_take_drop_id distinct_append)
    ultimately show ?thesis unfolding Z sss[symmetric] by blast
  qed
  also have "card (set (take max_row ?ss)) = max_row"
    using dss big ls by (simp add: distinct_card)
  finally have "length (filter (\<lambda>p. p \<notin> ?Z) ?ps) = max_row" .
  then show "nf_size C_rowptr C_colinds D' splitting cp = max_row"
    unfolding nf_size_filter keep .
qed

lemma air_pass1_row_eq:
  "air_pass1_row srt C_rowptr C_colinds Cpts splitting max_row row (rowptr, D, nnz)
     = (rowptr[row + 1 := nnz + (1 + min (nf_size C_rowptr C_colinds D splitting (Cpts ! row)) max_row)],
        air_truncate srt C_rowptr C_colinds splitting max_row (Cpts ! row) D,
        nnz + (1 + min (nf_size C_rowptr C_colinds D splitting (Cpts ! row)) max_row))"
  by (simp add: air_pass1_row_def air_truncate_def nf_size_def Let_def)

lemma air_truncate_effect:
  fixes C_colinds splitting :: "nat list" and max_row :: nat
  assumes "sorts_by_second srt" and "C_rowptr ! (cp + 1) \<le> length D"
  defines "D' \<equiv> air_truncate srt C_rowptr C_colinds splitting max_row cp D"
  shows "nf_size C_rowptr C_colinds D' splitting cp
           = min (nf_size C_rowptr C_colinds D splitting cp) max_row"
    and "length D' = length D"
    and "\<forall>p. \<not> in_row C_rowptr cp p \<longrightarrow> D' ! p = D ! p"
proof -
  let ?nb = "air_neighborhood C_rowptr C_colinds D splitting cp"
  have perm: "mset (srt ?nb) = mset ?nb" using assms(1) by (simp add: sorts_by_second_def)
  show "nf_size C_rowptr C_colinds D' splitting cp
           = min (nf_size C_rowptr C_colinds D splitting cp) max_row"
  proof (cases "max_row < length ?nb")
    case True
    from truncate_row(1)[OF perm True assms(2)] True show ?thesis
      by (simp add: D'_def air_truncate_def nf_size_def)
  next
    case False
    then show ?thesis by (simp add: D'_def air_truncate_def nf_size_def)
  qed
  show "length D' = length D"
  proof (cases "max_row < length ?nb")
    case True
    from truncate_row(2)[OF perm True assms(2)] True show ?thesis
      by (simp add: D'_def air_truncate_def)
  next
    case False
    then show ?thesis by (simp add: D'_def air_truncate_def)
  qed
  show "\<forall>p. \<not> in_row C_rowptr cp p \<longrightarrow> D' ! p = D ! p"
  proof (cases "max_row < length ?nb")
    case True
    from truncate_row(3)[OF perm True assms(2)] True show ?thesis
      by (simp add: D'_def air_truncate_def in_row_def)
  next
    case False
    then show ?thesis by (simp add: D'_def air_truncate_def)
  qed
qed

lemma rows_disjoint:
  assumes "sorted C_rowptr" "cp + 1 < length C_rowptr" "cp' + 1 < length C_rowptr" "cp \<noteq> cp'"
    and "in_row C_rowptr cp p"
  shows "\<not> in_row C_rowptr cp' p"
proof (cases "cp < cp'")
  case True
  then have "C_rowptr ! (cp + 1) \<le> C_rowptr ! cp'"
    using assms(1,3) by (intro sorted_nth_mono) auto
  with assms(5) show ?thesis by (simp add: in_row_def)
next
  case False
  with assms(4) have "cp' < cp" by simp
  then have "C_rowptr ! (cp' + 1) \<le> C_rowptr ! cp"
    using assms(1,2) by (intro sorted_nth_mono) auto
  with assms(5) show ?thesis by (simp add: in_row_def)
qed

lemma nf_size_frame:
  assumes "\<forall>p. in_row C_rowptr cp p \<longrightarrow> D' ! p = D ! p"
  shows "nf_size C_rowptr C_colinds D' splitting cp = nf_size C_rowptr C_colinds D splitting cp"
  using assms by (intro nf_size_cong(1)) (simp add: in_row_def)

lemma air_pass1_inv:
  assumes srt: "sorts_by_second srt" and wf: "air_wf C_rowptr C_data Cpts"
    and m: "m \<le> length Cpts" and rl: "m < length rowptr"
  shows "case fold (air_pass1_row srt C_rowptr C_colinds Cpts splitting max_row) [0..<m]
                   (rowptr[0 := 0], C_data, 0) of
           (rp, D, nnz) \<Rightarrow>
             length D = length C_data \<and> rp ! 0 = 0 \<and> nnz = rp ! m
           \<and> (\<forall>r < m. rp ! (r + 1) = rp ! r + (1 + air_row_len C_rowptr C_colinds C_data Cpts splitting max_row r))
           \<and> (\<forall>r < m. nf_size C_rowptr C_colinds D splitting (Cpts ! r)
                         = air_row_len C_rowptr C_colinds C_data Cpts splitting max_row r)
           \<and> (\<forall>p. (\<forall>r < m. \<not> in_row C_rowptr (Cpts ! r) p) \<longrightarrow> D ! p = C_data ! p)"
  using m rl
proof (induction m)
  case 0
  then show ?case by simp
next
  case (Suc m)
  let ?G = "air_row_len C_rowptr C_colinds C_data Cpts splitting max_row"
  obtain rp D nnz where st:
    "fold (air_pass1_row srt C_rowptr C_colinds Cpts splitting max_row) [0..<m]
          (rowptr[0 := 0], C_data, 0) = (rp, D, nnz)"
    by (metis prod_cases3)
  with Suc have ih: "length D = length C_data" "rp ! 0 = 0" "nnz = rp ! m"
    "\<forall>r < m. rp ! (r + 1) = rp ! r + (1 + ?G r)"
    "\<forall>r < m. nf_size C_rowptr C_colinds D splitting (Cpts ! r) = ?G r"
    "\<forall>p. (\<forall>r < m. \<not> in_row C_rowptr (Cpts ! r) p) \<longrightarrow> D ! p = C_data ! p"
    by auto
  let ?cp = "Cpts ! m"
  have mlen: "m < length Cpts" using Suc.prems by simp
  have cpin: "?cp \<in> set Cpts" using mlen by simp
  have sorted: "sorted C_rowptr" and dist: "distinct Cpts" using wf by (simp_all add: air_wf_def)
  have bound: "\<And>cp. cp \<in> set Cpts \<Longrightarrow> cp + 1 < length C_rowptr \<and> C_rowptr ! (cp + 1) \<le> length C_data"
    using wf by (simp add: air_wf_def)
  have other: "\<not> in_row C_rowptr (Cpts ! r) p" if "r < m" "in_row C_rowptr ?cp p" for r p
  proof -
    have "Cpts ! r \<noteq> ?cp" using dist that(1) mlen by (simp add: nth_eq_iff_index_eq)
    moreover have "Cpts ! r \<in> set Cpts" using that(1) mlen by simp
    ultimately show ?thesis using rows_disjoint[OF sorted _ _ _ that(2), of "Cpts ! r"] bound cpin
      by metis
  qed
  have fresh: "\<forall>p. in_row C_rowptr ?cp p \<longrightarrow> D ! p = C_data ! p"
    using ih(6) other by blast
  have nfeq: "nf_size C_rowptr C_colinds D splitting ?cp = nf_size C_rowptr C_colinds C_data splitting ?cp"
    by (rule nf_size_frame[OF fresh])
  let ?D' = "air_truncate srt C_rowptr C_colinds splitting max_row ?cp D"
  have blen: "C_rowptr ! (?cp + 1) \<le> length D" using bound[OF cpin] ih(1) by simp
  note eff = air_truncate_effect[OF srt blen, where C_colinds=C_colinds and splitting=splitting and max_row=max_row]
  let ?nnz' = "nnz + (1 + ?G m)"
  have step: "fold (air_pass1_row srt C_rowptr C_colinds Cpts splitting max_row) [0..<Suc m]
          (rowptr[0 := 0], C_data, 0) = (rp[m + 1 := ?nnz'], ?D', ?nnz')"
    using st nfeq by (simp add: air_pass1_row_eq air_row_len_def)
  have rplen: "length rp = length rowptr"
  proof -
    have "length (fst (fold (air_pass1_row srt C_rowptr C_colinds Cpts splitting max_row) xs (a, b, c))) = length a"
      for xs a b c
      by (induction xs arbitrary: a b c) (auto simp: air_pass1_row_eq)
    from this[of "[0..<m]" "rowptr[0 := 0]" C_data 0] st show ?thesis by simp
  qed
  have c1: "length ?D' = length C_data" using eff(2) ih(1) by simp
  have c2: "rp[m + 1 := ?nnz'] ! 0 = 0" using ih(2) by simp
  have c3: "?nnz' = rp[m + 1 := ?nnz'] ! Suc m" using Suc.prems rplen by simp
  have c4: "\<forall>r < Suc m. rp[m + 1 := ?nnz'] ! (r + 1) = rp[m + 1 := ?nnz'] ! r + (1 + ?G r)"
  proof (intro allI impI)
    fix r assume "r < Suc m"
    then consider "r < m" | "r = m" by linarith
    then show "rp[m + 1 := ?nnz'] ! (r + 1) = rp[m + 1 := ?nnz'] ! r + (1 + ?G r)"
    proof cases
      case 1
      then show ?thesis using ih(4) by simp
    next
      case 2
      then show ?thesis using ih(3) Suc.prems rplen by simp
    qed
  qed
  have c5: "\<forall>r < Suc m. nf_size C_rowptr C_colinds ?D' splitting (Cpts ! r) = ?G r"
  proof (intro allI impI)
    fix r assume "r < Suc m"
    then consider "r < m" | "r = m" by linarith
    then show "nf_size C_rowptr C_colinds ?D' splitting (Cpts ! r) = ?G r"
    proof cases
      case 1
      have "\<forall>p. in_row C_rowptr (Cpts ! r) p \<longrightarrow> ?D' ! p = D ! p"
        using eff(3) other[OF 1] by blast
      from nf_size_frame[OF this] ih(5) 1 show ?thesis by simp
    next
      case 2
      then show ?thesis using eff(1) nfeq by (simp add: air_row_len_def)
    qed
  qed
  have c6: "\<forall>p. (\<forall>r < Suc m. \<not> in_row C_rowptr (Cpts ! r) p) \<longrightarrow> ?D' ! p = C_data ! p"
    using eff(3) ih(6) by (simp add: less_Suc_eq)
  show ?case unfolding step using c1 c2 c3 c4 c5 c6 by simp
qed

lemma air_columns_take:
  "strong_F C_colinds D splitting i \<Longrightarrow>
   air_columns C_colinds D splitting i (c, ind) = (c[ind := C_colinds ! i], ind + 1)"
  by (simp add: air_columns_def)

lemma air_columns_skip:
  "\<not> strong_F C_colinds D splitting i \<Longrightarrow>
   air_columns C_colinds D splitting i (c, ind) = (c, ind)"
  by (simp add: air_columns_def)

lemma air_columns_fold:
  assumes "fold (air_columns C_colinds D splitting) js (c, start) = (c', ind)"
  shows "ind = start + length (filter (strong_F C_colinds D splitting) js)
       \<and> length c' = length c \<and> (\<forall>p < start. c' ! p = c ! p)"
  using assms
proof (induction js arbitrary: c start)
  case Nil
  then show ?case by simp
next
  case (Cons j js)
  show ?case
  proof (cases "strong_F C_colinds D splitting j")
    case True
    with Cons.prems have "fold (air_columns C_colinds D splitting) js (c[start := C_colinds ! j], start + 1) = (c', ind)"
      by (simp add: air_columns_take)
    from Cons.IH[OF this] True show ?thesis by simp
  next
    case False
    with Cons.prems have "fold (air_columns C_colinds D splitting) js (c, start) = (c', ind)"
      by (simp add: air_columns_skip)
    from Cons.IH[OF this] False show ?thesis by simp
  qed
qed

lemma air_data_fold:
  "length (fold (\<lambda>t data. data[start + t := x ! t]) ts d) = length d
   \<and> (\<forall>p < start. fold (\<lambda>t data. data[start + t := x ! t]) ts d ! p = d ! p)"
proof (induction ts arbitrary: d)
  case Nil
  then show ?case by simp
next
  case (Cons t ts)
  show ?case using Cons.IH[of "d[start + t := x ! t]"] by simp
qed

lemma air_pass2_row_effect:
  assumes run: "air_pass2_row lsq rowptr A_rowptr A_colinds A_data C_rowptr C_colinds D Cpts splitting row
                  (colinds, data) = (colinds', data')"
  defines "ind \<equiv> rowptr ! row + nf_size C_rowptr C_colinds D splitting (Cpts ! row)"
  shows "length colinds' = length colinds \<and> length data' = length data
       \<and> (\<forall>p < rowptr ! row. colinds' ! p = colinds ! p \<and> data' ! p = data ! p)
       \<and> (ind < length colinds \<longrightarrow> colinds' ! ind = Cpts ! row)
       \<and> (ind < length data \<longrightarrow> data' ! ind = 1)"
proof -
  obtain c1 i1 where cols:
    "fold (air_columns C_colinds D splitting) [C_rowptr ! (Cpts ! row)..<C_rowptr ! (Cpts ! row + 1)]
          (colinds, rowptr ! row) = (c1, i1)"
    by (metis surj_pair)
  from air_columns_fold[OF cols]
  have c: "i1 = ind" "length c1 = length colinds" "\<forall>p < rowptr ! row. c1 ! p = colinds ! p"
    by (simp_all add: ind_def nf_size_filter)
  define x where "x = lsq (concat (map (\<lambda>j. map (\<lambda>i. air_lookup A_rowptr A_colinds A_data
                                                   (c1 ! j) (c1 ! i))
                                         [rowptr ! row..<ind])
                             [rowptr ! row..<ind]))
                     (map (\<lambda>i. air_lookup A_rowptr A_colinds A_data (Cpts ! row) (c1 ! i))
                     [rowptr ! row..<ind]) (ind - rowptr ! row)"
  define d1 where "d1 = fold (\<lambda>t data. data[rowptr ! row + t := x ! t]) [0..<ind - rowptr ! row] data"
  have out: "colinds' = c1[ind := Cpts ! row]" "data' = d1[ind := 1]"
    using run cols c(1) by (simp_all add: air_pass2_row_def Let_def x_def d1_def)
  have d: "length d1 = length data" "\<forall>p < rowptr ! row. d1 ! p = data ! p"
    unfolding d1_def using air_data_fold[of "rowptr ! row" x "[0..<ind - rowptr ! row]" data] by auto
  have "rowptr ! row \<le> ind" by (simp add: ind_def)
  then show ?thesis using c d by (simp add: out)
qed

lemma air_pass2_inv:
  assumes rp: "\<forall>r < n. rp ! (r + 1) = rp ! r + (1 + G r)"
    and nf: "\<forall>r < n. nf_size C_rowptr C_colinds D splitting (Cpts ! r) = G r"
    and lc: "rp ! n \<le> length colinds" and ld: "rp ! n \<le> length data"
    and m: "m \<le> n"
  shows "case fold (air_pass2_row lsq rp A_rowptr A_colinds A_data C_rowptr C_colinds D Cpts splitting)
                   [0..<m] (colinds, data) of
           (c', d') \<Rightarrow> length c' = length colinds \<and> length d' = length data
             \<and> (\<forall>r < m. c' ! (rp ! r + G r) = Cpts ! r \<and> d' ! (rp ! r + G r) = 1)"
  using m
proof (induction m)
  case 0
  then show ?case by simp
next
  case (Suc m)
  obtain c1 d1 where st:
    "fold (air_pass2_row lsq rp A_rowptr A_colinds A_data C_rowptr C_colinds D Cpts splitting)
          [0..<m] (colinds, data) = (c1, d1)"
    by (metis surj_pair)
  with Suc have ih: "length c1 = length colinds" "length d1 = length data"
    "\<forall>r < m. c1 ! (rp ! r + G r) = Cpts ! r \<and> d1 ! (rp ! r + G r) = 1"
    by auto
  obtain c2 d2 where row:
    "air_pass2_row lsq rp A_rowptr A_colinds A_data C_rowptr C_colinds D Cpts splitting m (c1, d1) = (c2, d2)"
    by (metis surj_pair)
  have mn: "m < n" using Suc.prems by simp
  have pos: "rp ! m + G m < rp ! n"
  proof -
    have "rp ! m + G m < rp ! (m + 1)" using rp mn by simp
    also have "\<dots> \<le> rp ! n" using row_pointer_mono[OF rp, of "m + 1" n] mn by simp
    finally show ?thesis .
  qed
  from air_pass2_row_effect[OF row] nf mn
  have eff: "length c2 = length c1" "length d2 = length d1"
    "\<forall>p < rp ! m. c2 ! p = c1 ! p \<and> d2 ! p = d1 ! p"
    "rp ! m + G m < length c1 \<longrightarrow> c2 ! (rp ! m + G m) = Cpts ! m"
    "rp ! m + G m < length d1 \<longrightarrow> d2 ! (rp ! m + G m) = 1"
    by simp_all
  have "\<forall>r < Suc m. c2 ! (rp ! r + G r) = Cpts ! r \<and> d2 ! (rp ! r + G r) = 1"
  proof (intro allI impI)
    fix r assume "r < Suc m"
    then consider "r < m" | "r = m" by linarith
    then show "c2 ! (rp ! r + G r) = Cpts ! r \<and> d2 ! (rp ! r + G r) = 1"
    proof cases
      case 1
      have "rp ! r + G r < rp ! (r + 1)" using rp 1 mn by simp
      also have "\<dots> \<le> rp ! m" using row_pointer_mono[OF rp, of "r + 1" m] 1 mn by simp
      finally show ?thesis using eff(3) ih(3) 1 by simp
    next
      case 2
      then show ?thesis using eff(4,5) pos lc ld ih(1,2) by simp
    qed
  qed
  then show ?case using st row eff(1,2) ih(1,2) by simp
qed

lemma sorts_by_second_sort_key: "sorts_by_second (sort_key snd)"
  by (simp add: sorts_by_second_def sorted_sort_key)

text \<open>
  Claim C6 (\<^verbatim>\<open>approx_ideal_restriction_pass1\<close> followed by
  \<^verbatim>\<open>approx_ideal_restriction_pass2\<close>): for every C-point row of \<open>R\<close>, the row has
  \<open>min (|N_f|, max_row) + 1\<close> entries, where \<open>N_f\<close> is the set of entries of the C-point's row
  of the strength matrix, as it was given to pass 1, with label \<open>F_NODE\<close> and magnitude above
  \<open>1e-16\<close>; the last entry of the row is at column \<open>cp\<close> with value 1. The strength matrix
  has a sorted row pointer inside its arrays, the C-points are distinct, the output arrays
  hold the rows, and pass 2 reads the strength values pass 1 left.
\<close>

theorem air_row_size_and_identity:
  assumes "sorts_by_second srt" and "air_wf C_rowptr C_data Cpts"
    and "length Cpts < length rowptr"
    and "approx_ideal_restriction_pass1 srt rowptr C_rowptr C_colinds C_data Cpts splitting max_row
           = (rowptr', C_data')"
    and "rowptr' ! length Cpts \<le> length colinds" and "rowptr' ! length Cpts \<le> length data"
    and "approx_ideal_restriction_pass2 lsq rowptr' colinds data A_rowptr A_colinds A_data
           C_rowptr C_colinds C_data' Cpts splitting = (colinds', data')"
    and "row < length Cpts"
  shows "rowptr' ! (row + 1) - rowptr' ! row
           = min (length (filter (\<lambda>i. splitting ! (C_colinds ! i) = F_NODE \<and> \<bar>C_data ! i\<bar> > 1 / 10 ^ 16)
                                 [C_rowptr ! (Cpts ! row)..<C_rowptr ! (Cpts ! row + 1)])) max_row + 1
       \<and> rowptr' ! row < rowptr' ! (row + 1)
       \<and> colinds' ! (rowptr' ! (row + 1) - 1) = Cpts ! row
       \<and> data' ! (rowptr' ! (row + 1) - 1) = 1"
proof -
  let ?G = "air_row_len C_rowptr C_colinds C_data Cpts splitting max_row"
  obtain nnz where f1:
    "fold (air_pass1_row srt C_rowptr C_colinds Cpts splitting max_row) [0..<length Cpts]
          (rowptr[0 := 0], C_data, 0) = (rowptr', C_data', nnz)"
    using assms(4) by (auto simp: approx_ideal_restriction_pass1_def split: prod.splits)
  from air_pass1_inv[OF assms(1,2) order_refl assms(3), of C_colinds splitting max_row] f1
  have p1: "\<forall>r < length Cpts. rowptr' ! (r + 1) = rowptr' ! r + (1 + ?G r)"
    "\<forall>r < length Cpts. nf_size C_rowptr C_colinds C_data' splitting (Cpts ! r) = ?G r"
    by auto
  from air_pass2_inv[OF p1 assms(5,6) order_refl, of lsq A_rowptr A_colinds A_data] assms(7)
  have p2: "\<forall>r < length Cpts. colinds' ! (rowptr' ! r + ?G r) = Cpts ! r \<and> data' ! (rowptr' ! r + ?G r) = 1"
    by (auto simp: approx_ideal_restriction_pass2_def)
  have G: "?G row = min (length (filter (\<lambda>i. splitting ! (C_colinds ! i) = F_NODE \<and> \<bar>C_data ! i\<bar> > 1 / 10 ^ 16)
                                 [C_rowptr ! (Cpts ! row)..<C_rowptr ! (Cpts ! row + 1)])) max_row"
    by (simp add: air_row_len_def nf_size_filter strong_F_def[abs_def])
  have next_row: "rowptr' ! (row + 1) = rowptr' ! row + (1 + ?G row)" using p1(1) assms(8) by simp
  then have last: "rowptr' ! (row + 1) - 1 = rowptr' ! row + ?G row" by simp
  have a: "rowptr' ! (row + 1) - rowptr' ! row = ?G row + 1" using next_row by simp
  have b: "rowptr' ! row < rowptr' ! (row + 1)" using next_row by simp
  have c: "colinds' ! (rowptr' ! (row + 1) - 1) = Cpts ! row"
    "data' ! (rowptr' ! (row + 1) - 1) = 1"
    unfolding last using p2 assms(8) by simp_all
  show ?thesis using a b c unfolding G by blast
qed

theorem air_row_size_and_identity_witness:
  "approx_ideal_restriction_pass1 (sort_key snd) [0, 0] [0, 3, 5, 8] [0, 1, 2, 0, 1, 0, 1, 2]
       [4, -1, -2, -1, 4, -2, -1, 4] [0] [C_NODE, F_NODE, F_NODE] 1
     = ([0, 2], [4, 0, -2, -1, 4, -2, -1, 4])
   \<and> approx_ideal_restriction_pass2 (\<lambda>A0 b0 n. map (\<lambda>t. b0 ! t / A0 ! (t * n + t)) [0..<n])
       [0, 2] [0, 0] [0, 0] [0, 3, 5, 8] [0, 1, 2, 0, 1, 0, 1, 2] [4, -1, -2, -1, 4, -2, -1, 4]
       [0, 3, 5, 8] [0, 1, 2, 0, 1, 0, 1, 2] [4, 0, -2, -1, 4, -2, -1, 4] [0] [C_NODE, F_NODE, F_NODE]
     = ([2, 0], [- 1 / 2, 1])
   \<and> [0, 2] ! (0 + 1) - [0, 2] ! 0
       = min (length (filter (\<lambda>i. [C_NODE, F_NODE, F_NODE] ! ([0, 1, 2, 0, 1, 0, 1, 2] ! i) = F_NODE
                                 \<and> \<bar>[4, -1, -2, -1, 4, -2, -1, 4::real] ! i\<bar> > 1 / 10 ^ 16)
                          [[0, 3, 5, 8] ! ([0] ! 0)..<[0, 3, 5, 8] ! ([0] ! 0 + 1)])) 1 + 1
   \<and> [2, 0] ! ([0, 2] ! (0 + 1) - 1) = [0::nat] ! 0
   \<and> [- 1 / 2, 1::real] ! ([0, 2] ! (0 + 1) - 1) = 1"
proof -
  have h2: "air_wf [0, 3, 5, 8] [4, -1, -2, -1, 4, -2, -1, 4] [0]"
    by (simp add: air_wf_def)
  have h3: "length [0::nat] < length [0, 0::nat]" by simp
  have h4: "approx_ideal_restriction_pass1 (sort_key snd) [0, 0] [0, 3, 5, 8] [0, 1, 2, 0, 1, 0, 1, 2]
       [4, -1, -2, -1, 4, -2, -1, 4] [0] [C_NODE, F_NODE, F_NODE] 1
     = ([0, 2], [4, 0, -2, -1, 4, -2, -1, 4])"
    by code_simp
  have h5: "[0, 2] ! length [0::nat] \<le> length [0, 0::nat]" by simp
  have h6: "[0, 2] ! length [0::nat] \<le> length [0, 0::real]" by simp
  have h7: "approx_ideal_restriction_pass2 (\<lambda>A0 b0 n. map (\<lambda>t. b0 ! t / A0 ! (t * n + t)) [0..<n])
       [0, 2] [0, 0] [0, 0] [0, 3, 5, 8] [0, 1, 2, 0, 1, 0, 1, 2] [4, -1, -2, -1, 4, -2, -1, 4]
       [0, 3, 5, 8] [0, 1, 2, 0, 1, 0, 1, 2] [4, 0, -2, -1, 4, -2, -1, 4] [0] [C_NODE, F_NODE, F_NODE]
     = ([2, 0], [- 1 / 2, 1])"
    by code_simp
  have h8: "(0::nat) < length [0::nat]" by simp
  from air_row_size_and_identity[OF sorts_by_second_sort_key h2 h3 h4 h5 h6 h7 h8] h4 h7
  show ?thesis by blast
qed

section \<open>Results on the CLJP splitting\<close>

lemma mono_labels_refl: "mono_labels s s"
  by (simp add: mono_labels_def)

lemma mono_labels_trans: "mono_labels a b \<Longrightarrow> mono_labels b c \<Longrightarrow> mono_labels a c"
  by (auto simp: mono_labels_def)

lemma mono_labels_update: "s ! j = U_NODE \<Longrightarrow> mono_labels s (s[j := v])"
  unfolding mono_labels_def by (metis length_list_update nth_list_update_neq)

lemma count_U_card: "count_U s = card {i. i < length s \<and> s ! i = U_NODE}"
  by (simp add: count_U_def length_filter_conv_card)

lemma mono_labels_count: 
  assumes "mono_labels s s'"
  shows "count_U s' \<le> count_U s"
proof -
  have "{i. i < length s' \<and> s' ! i = U_NODE} \<subseteq> {i. i < length s \<and> s ! i = U_NODE}"
    using assms by (auto simp: mono_labels_def)
  then show ?thesis unfolding count_U_card by (intro card_mono) auto
qed

lemma count_U_update:
  assumes "j < length s" "s ! j = U_NODE" "v \<noteq> U_NODE"
  shows "count_U (s[j := v]) + 1 = count_U s"
proof -
  have "{i. i < length (s[j := v]) \<and> s[j := v] ! i = U_NODE}
        = {i. i < length s \<and> s ! i = U_NODE} - {j}"
    using assms by (auto simp: nth_list_update)
  moreover have "j \<in> {i. i < length s \<and> s ! i = U_NODE}" using assms by simp
  ultimately show ?thesis unfolding count_U_card
    by (metis (no_types, lifting) Suc_eq_plus1 card_Suc_Diff1 finite_nat_set_iff_bounded mem_Collect_eq)
qed

lemma labels_CFU_update:
  assumes "labels_CFU s" "v = F_NODE \<or> v = C_NODE \<or> v = U_NODE"
  shows "labels_CFU (s[j := v])"
  unfolding labels_CFU_def
proof (intro allI impI)
  fix i assume "i < length (s[j := v])"
  then show "s[j := v] ! i = F_NODE \<or> s[j := v] ! i = C_NODE \<or> s[j := v] ! i = U_NODE"
    using assms by (cases "i = j") (auto simp: labels_CFU_def)
qed

subsection \<open>Selection of the set \<open>D\<close>\<close>

lemma take_update_snoc: "k < length xs \<Longrightarrow> take (Suc k) (xs[k := v]) = take k xs @ [v]"
  by (simp add: take_Suc_conv_app_nth)

lemma cljp_select_inv:
  assumes "m \<le> length (cj_Dlist st)"
  shows "let st' = fold (cljp_select_node Sp Sj Tp Tj) [0..<m] (st\<lparr> cj_nD := 0 \<rparr>) in
           cj_splitting st' = cj_splitting st \<and> cj_weight st' = cj_weight st
         \<and> cj_edgemark st' = cj_edgemark st \<and> cj_c_dep_cache st' = cj_c_dep_cache st
         \<and> length (cj_Dlist st') = length (cj_Dlist st)
         \<and> take (cj_nD st') (cj_Dlist st')
             = filter (cljp_candidate Sp Sj Tp Tj (cj_splitting st) (cj_weight st)) [0..<m]
         \<and> cj_nD st' = length (filter (cljp_candidate Sp Sj Tp Tj (cj_splitting st) (cj_weight st)) [0..<m])
         \<and> cj_unassigned st' = cj_unassigned st - int (cj_nD st')"
  using assms
proof (induction m)
  case 0
  then show ?case by simp
next
  case (Suc m)
  define st1 where "st1 = fold (cljp_select_node Sp Sj Tp Tj) [0..<m] (st\<lparr> cj_nD := 0 \<rparr>)"
  let ?P = "cljp_candidate Sp Sj Tp Tj (cj_splitting st) (cj_weight st)"
  have "m \<le> length (cj_Dlist st)" using Suc.prems by simp
  from Suc.IH[OF this] have ihc: "cj_splitting st1 = cj_splitting st \<and> cj_weight st1 = cj_weight st
    \<and> cj_edgemark st1 = cj_edgemark st \<and> cj_c_dep_cache st1 = cj_c_dep_cache st
    \<and> length (cj_Dlist st1) = length (cj_Dlist st)
    \<and> take (cj_nD st1) (cj_Dlist st1) = filter ?P [0..<m]
    \<and> cj_nD st1 = length (filter ?P [0..<m])
    \<and> cj_unassigned st1 = cj_unassigned st - int (cj_nD st1)"
    unfolding st1_def Let_def .
  then have ih: "cj_splitting st1 = cj_splitting st" "cj_weight st1 = cj_weight st"
    "cj_edgemark st1 = cj_edgemark st" "cj_c_dep_cache st1 = cj_c_dep_cache st"
    "length (cj_Dlist st1) = length (cj_Dlist st)"
    "take (cj_nD st1) (cj_Dlist st1) = filter ?P [0..<m]"
    "cj_nD st1 = length (filter ?P [0..<m])"
    "cj_unassigned st1 = cj_unassigned st - int (cj_nD st1)"
    by blast+
  have nDm: "cj_nD st1 \<le> m" using ih(7) by (metis diff_zero length_filter_le length_upt)
  then have nDlen: "cj_nD st1 < length (cj_Dlist st1)" using Suc.prems ih(5) by simp
  have step: "fold (cljp_select_node Sp Sj Tp Tj) [0..<Suc m] (st\<lparr> cj_nD := 0 \<rparr>)
              = cljp_select_node Sp Sj Tp Tj m st1"
    by (simp add: st1_def)
  show ?case
  proof (cases "?P m")
    case True
    then have eq: "cljp_select_node Sp Sj Tp Tj m st1
        = st1\<lparr> cj_D := (cj_D st1)[m := 1],
               cj_Dlist := (cj_Dlist st1)[cj_nD st1 := m],
               cj_unassigned := cj_unassigned st1 - 1,
               cj_nD := cj_nD st1 + 1 \<rparr>"
      using ih(1,2) by (simp add: cljp_select_node_def cljp_candidate_def)
    show ?thesis unfolding step eq Let_def
      using True ih nDlen by (simp add: take_update_snoc)
  next
    case False
    then have eq: "cljp_select_node Sp Sj Tp Tj m st1 = st1\<lparr> cj_D := (cj_D st1)[m := 0] \<rparr>"
      using ih(1,2) by (auto simp: cljp_select_node_def cljp_candidate_def)
    show ?thesis unfolding step eq Let_def
      using False ih by simp
  qed
qed

lemma cljp_select_effect:
  fixes Sp Sj Tp Tj :: "nat list"
  assumes "n \<le> length (cj_Dlist st)"
  defines "st' \<equiv> cljp_select n Sp Sj Tp Tj st"
  defines "sel \<equiv> filter (cljp_candidate Sp Sj Tp Tj (cj_splitting st) (cj_weight st)) [0..<n]"
  shows "cj_splitting st' = cj_splitting st" "cj_weight st' = cj_weight st"
    "length (cj_Dlist st') = length (cj_Dlist st)"
    "take (cj_nD st') (cj_Dlist st') = sel" "cj_nD st' = length sel"
    "cj_unassigned st' = cj_unassigned st - int (cj_nD st')"
proof -
  have inv: "cj_splitting st' = cj_splitting st \<and> cj_weight st' = cj_weight st
         \<and> cj_edgemark st' = cj_edgemark st \<and> cj_c_dep_cache st' = cj_c_dep_cache st
         \<and> length (cj_Dlist st') = length (cj_Dlist st)
         \<and> take (cj_nD st') (cj_Dlist st') = sel
         \<and> cj_nD st' = length sel
         \<and> cj_unassigned st' = cj_unassigned st - int (cj_nD st')"
    using cljp_select_inv[OF assms(1), where Sp=Sp and Sj=Sj and Tp=Tp and Tj=Tj]
    unfolding st'_def sel_def cljp_select_def Let_def .
  show "cj_splitting st' = cj_splitting st" "cj_weight st' = cj_weight st"
    "length (cj_Dlist st') = length (cj_Dlist st)"
    "take (cj_nD st') (cj_Dlist st') = sel" "cj_nD st' = length sel"
    "cj_unassigned st' = cj_unassigned st - int (cj_nD st')"
    using inv by blast+
qed

subsection \<open>Marking the selected nodes\<close>

lemma cljp_mark_fold:
  assumes "k \<le> cj_nD st"
  shows "fold (\<lambda>i st. st\<lparr> cj_splitting := (cj_splitting st)[cj_Dlist st ! i := C_NODE] \<rparr>) [0..<k] st
         = st\<lparr> cj_splitting := fold (\<lambda>d s. s[d := C_NODE]) (map ((!) (cj_Dlist st)) [0..<k]) (cj_splitting st) \<rparr>"
  using assms by (induction k) simp_all

lemma cljp_mark_eq:
  assumes "cj_nD st \<le> length (cj_Dlist st)"
  shows "cljp_mark st
         = st\<lparr> cj_splitting := fold (\<lambda>d s. s[d := C_NODE]) (take (cj_nD st) (cj_Dlist st)) (cj_splitting st) \<rparr>"
proof -
  have "map ((!) (cj_Dlist st)) [0..<cj_nD st] = take (cj_nD st) (cj_Dlist st)"
    using assms by (intro nth_equalityI) auto
  then show ?thesis using cljp_mark_fold[of "cj_nD st" st] by (simp add: cljp_mark_def)
qed

lemma fold_update_nth:
  "length (fold (\<lambda>d s. s[d := v]) ds s) = length s
   \<and> (\<forall>i. fold (\<lambda>d s. s[d := v]) ds s ! i = (if i \<in> set ds \<and> i < length s then v else s ! i))"
proof (induction ds arbitrary: s)
  case Nil
  then show ?case by simp
next
  case (Cons d ds)
  show ?case using Cons.IH[of "s[d := v]"]
    by (auto simp: nth_list_update_total)
qed

lemma mark_labels:
  assumes "\<forall>d \<in> set ds. d < length s \<and> s ! d = U_NODE"
  defines "s' \<equiv> fold (\<lambda>d s. s[d := C_NODE]) ds s"
  shows "mono_labels s s'" and "labels_CFU s \<Longrightarrow> labels_CFU s'"
    and "distinct ds \<Longrightarrow> count_U s' + length ds = count_U s"
proof -
  note n = fold_update_nth[of C_NODE ds s, folded s'_def]
  show "mono_labels s s'" using n assms(1) by (auto simp: mono_labels_def)
  show "labels_CFU s'" if "labels_CFU s" using n that by (auto simp: labels_CFU_def)
  show "count_U s' + length ds = count_U s" if "distinct ds"
  proof -
    have "{i. i < length s' \<and> s' ! i = U_NODE} = {i. i < length s \<and> s ! i = U_NODE} - set ds"
      using n by (auto simp: C_NODE_def U_NODE_def)
    moreover have "set ds \<subseteq> {i. i < length s \<and> s ! i = U_NODE}" using assms(1) by auto
    moreover have "finite {i. i < length s \<and> s ! i = U_NODE}" by simp
    ultimately have "card {i. i < length s' \<and> s' ! i = U_NODE} + card (set ds)
          = card {i. i < length s \<and> s ! i = U_NODE}"
      by (metis (no_types, lifting) add.commute card_Diff_subset card_mono finite_subset le_add_diff_inverse)
    then show ?thesis using that by (simp add: count_U_card distinct_card)
  qed
qed

lemma fold_mono_labels:
  assumes "\<And>x st. mono_labels (cj_splitting st) (cj_splitting (f x st))"
  shows "mono_labels (cj_splitting st) (cj_splitting (fold f xs st))"
proof (induction xs arbitrary: st)
  case Nil
  then show ?case by (simp add: mono_labels_refl)
next
  case (Cons x xs)
  show ?case using mono_labels_trans[OF assms[of st x] Cons.IH[of "f x st"]] by simp
qed

lemma remove_edge_mono:
  "cj_splitting st ! j = U_NODE \<Longrightarrow>
   mono_labels (cj_splitting st) (cj_splitting (cljp_remove_edge jj j st))"
  by (simp add: cljp_remove_edge_def Let_def mono_labels_refl mono_labels_update)

lemma remove_edge_mid:
  assumes "cljp_mid n Dl nD st" "j < n" "cj_splitting st ! j = U_NODE"
  shows "cljp_mid n Dl nD (cljp_remove_edge jj j st)"
proof (cases "(cj_weight st)[j := cj_weight st ! j - 1] ! j < 1")
  case True
  have len: "j < length (cj_splitting st)" using assms by (simp add: cljp_mid_def cljp_inv_def)
  have "count_U ((cj_splitting st)[j := F_NODE]) + 1 = count_U (cj_splitting st)"
    using count_U_update[OF len assms(3)] by (simp add: F_NODE_def U_NODE_def)
  then show ?thesis
    using True assms(1)
    by (auto simp: cljp_remove_edge_def Let_def cljp_mid_def cljp_inv_def labels_CFU_update)
next
  case False
  then show ?thesis using assms(1)
    by (auto simp: cljp_remove_edge_def Let_def cljp_mid_def cljp_inv_def)
qed

lemma p5_edge_mono: "mono_labels (cj_splitting st) (cj_splitting (cljp_p5_edge Sj jj st))"
  by (simp add: cljp_p5_edge_def Let_def mono_labels_refl remove_edge_mono)

lemma p5_edge_mid:
  "cljp_mid n Dl nD st \<Longrightarrow> Sj ! jj < n \<Longrightarrow> cljp_mid n Dl nD (cljp_p5_edge Sj jj st)"
  by (simp add: cljp_p5_edge_def Let_def remove_edge_mid)

lemma p6_cache_mono: "cj_splitting (cljp_p6_cache Tj c jj st) = cj_splitting st"
  by (simp add: cljp_p6_cache_def Let_def)

lemma p6_cache_mid:
  "cljp_mid n Dl nD st \<Longrightarrow> cljp_mid n Dl nD (cljp_p6_cache Tj c jj st)"
  by (auto simp: cljp_p6_cache_def Let_def cljp_mid_def cljp_inv_def)

lemma p6_edge_mono: "mono_labels (cj_splitting st) (cj_splitting (cljp_p6_edge Sj c kk st))"
  by (simp add: cljp_p6_edge_def Let_def mono_labels_refl remove_edge_mono)

lemma p6_edge_mid:
  "cljp_mid n Dl nD st \<Longrightarrow> Sj ! kk < n \<Longrightarrow> cljp_mid n Dl nD (cljp_p6_edge Sj c kk st)"
  by (simp add: cljp_p6_edge_def Let_def remove_edge_mid)

lemma cljp_p5_mono: "mono_labels (cj_splitting st) (cj_splitting (cljp_p5 Sp Sj st))"
  unfolding cljp_p5_def Let_def
  by (intro fold_mono_labels p5_edge_mono)

lemma cljp_p6_node_mono: "mono_labels (cj_splitting st) (cj_splitting (cljp_p6_node Sp Sj Tp Tj c st))"
proof -
  have a: "cj_splitting (fold (cljp_p6_cache Tj c) xs st) = cj_splitting st" for xs
    by (induction xs arbitrary: st) (simp_all add: p6_cache_mono)
  have "mono_labels (cj_splitting st') (cj_splitting (fold (\<lambda>jj st. let j = Tj ! jj in
                 fold (cljp_p6_edge Sj c) [Sp ! j..<Sp ! (j + 1)] st) xs st'))" for xs st'
    unfolding Let_def by (intro fold_mono_labels p6_edge_mono)
  from this[of "fold (cljp_p6_cache Tj c) [Tp ! c..<Tp ! (c + 1)] st"] a
  show ?thesis by (simp add: cljp_p6_node_def Let_def)
qed

lemma cljp_p6_mono: "mono_labels (cj_splitting st) (cj_splitting (cljp_p6 Sp Sj Tp Tj st))"
  unfolding cljp_p6_def
  by (intro fold_mono_labels cljp_p6_node_mono)

lemma row_in_range:
  "csr_wf n Xp Xj \<Longrightarrow> i < n \<Longrightarrow> jj \<in> set [Xp ! i..<Xp ! (i + 1)] \<Longrightarrow> Xj ! jj < n"
  by (simp add: csr_wf_def list_all_iff)

lemma cljp_p5_mid:
  assumes "csr_wf n Sp Sj" "\<forall>k < nD. Dl ! k < n" "cljp_mid n Dl nD st"
  shows "cljp_mid n Dl nD (cljp_p5 Sp Sj st)"
proof -
  have nD: "cj_nD st = nD" using assms(3) by (simp add: cljp_mid_def)
  have "cljp_mid n Dl nD (fold (\<lambda>iD st. let c = cj_Dlist st ! iD in
             fold (cljp_p5_edge Sj) [Sp ! c..<Sp ! (c + 1)] st) [0..<nD] st)"
  proof (rule fold_invariant[where Q = "\<lambda>iD. iD < nD" and P = "cljp_mid n Dl nD"])
    show "\<And>x. x \<in> set [0..<nD] \<Longrightarrow> x < nD" by simp
    show "cljp_mid n Dl nD st" by (rule assms(3))
  next
    fix iD st' assume iD: "iD < nD" and mid: "cljp_mid n Dl nD st'"
    then have c: "cj_Dlist st' ! iD < n" using assms(2) by (simp add: cljp_mid_def)
    have "cljp_mid n Dl nD (fold (cljp_p5_edge Sj) [Sp ! (cj_Dlist st' ! iD)..<Sp ! (cj_Dlist st' ! iD + 1)] st')"
      by (rule fold_invariant[where Q = "\<lambda>jj. Sj ! jj < n" and P = "cljp_mid n Dl nD"])
         (use row_in_range[OF assms(1) c] mid in \<open>auto intro: p5_edge_mid\<close>)
    then show "cljp_mid n Dl nD (let c = cj_Dlist st' ! iD in
             fold (cljp_p5_edge Sj) [Sp ! c..<Sp ! (c + 1)] st')"
      by (simp add: Let_def)
  qed
  then show ?thesis by (simp add: cljp_p5_def nD)
qed

lemma cljp_p6_node_mid:
  assumes "csr_wf n Sp Sj" "csr_wf n Tp Tj" "c < n" "cljp_mid n Dl nD st"
  shows "cljp_mid n Dl nD (cljp_p6_node Sp Sj Tp Tj c st)"
proof -
  let ?row = "[Tp ! c..<Tp ! (c + 1)]"
  have st1: "cljp_mid n Dl nD (fold (cljp_p6_cache Tj c) ?row st)"
    by (rule fold_invariant[where Q = "\<lambda>jj. True" and P = "cljp_mid n Dl nD"])
       (use assms(4) in \<open>auto intro: p6_cache_mid\<close>)
  have "cljp_mid n Dl nD (fold (\<lambda>jj st. let j = Tj ! jj in
                 fold (cljp_p6_edge Sj c) [Sp ! j..<Sp ! (j + 1)] st) ?row
              (fold (cljp_p6_cache Tj c) ?row st))"
  proof (rule fold_invariant[where Q = "\<lambda>jj. Tj ! jj < n" and P = "cljp_mid n Dl nD"])
    show "\<And>x. x \<in> set ?row \<Longrightarrow> Tj ! x < n" using row_in_range[OF assms(2,3)] by simp
    show "cljp_mid n Dl nD (fold (cljp_p6_cache Tj c) ?row st)" by (rule st1)
  next
    fix jj st' assume j: "Tj ! jj < n" and mid: "cljp_mid n Dl nD st'"
    have "cljp_mid n Dl nD (fold (cljp_p6_edge Sj c) [Sp ! (Tj ! jj)..<Sp ! (Tj ! jj + 1)] st')"
      by (rule fold_invariant[where Q = "\<lambda>kk. Sj ! kk < n" and P = "cljp_mid n Dl nD"])
         (use row_in_range[OF assms(1) j] mid in \<open>auto intro: p6_edge_mid\<close>)
    then show "cljp_mid n Dl nD (let j = Tj ! jj in
                 fold (cljp_p6_edge Sj c) [Sp ! j..<Sp ! (j + 1)] st')"
      by (simp add: Let_def)
  qed
  then show ?thesis by (simp add: cljp_p6_node_def Let_def)
qed

lemma cljp_p6_mid:
  assumes "csr_wf n Sp Sj" "csr_wf n Tp Tj" "\<forall>k < nD. Dl ! k < n" "cljp_mid n Dl nD st"
  shows "cljp_mid n Dl nD (cljp_p6 Sp Sj Tp Tj st)"
proof -
  have nD: "cj_nD st = nD" using assms(4) by (simp add: cljp_mid_def)
  have "cljp_mid n Dl nD (fold (\<lambda>iD st. cljp_p6_node Sp Sj Tp Tj (cj_Dlist st ! iD) st) [0..<nD] st)"
  proof (rule fold_invariant[where Q = "\<lambda>iD. iD < nD" and P = "cljp_mid n Dl nD"])
    show "\<And>x. x \<in> set [0..<nD] \<Longrightarrow> x < nD" by simp
    show "cljp_mid n Dl nD st" by (rule assms(4))
  next
    fix iD st' assume iD: "iD < nD" and mid: "cljp_mid n Dl nD st'"
    then have c: "cj_Dlist st' ! iD < n" using assms(3) by (simp add: cljp_mid_def)
    show "cljp_mid n Dl nD (cljp_p6_node Sp Sj Tp Tj (cj_Dlist st' ! iD) st')"
      by (rule cljp_p6_node_mid[OF assms(1,2) c mid])
  qed
  then show ?thesis by (simp add: cljp_p6_def nD)
qed

subsection \<open>One pass of the selection loop\<close>

lemma exists_candidate:
  assumes wfS: "csr_wf n Sp Sj" and wfT: "csr_wf n Tp Tj"
    and len: "length s = n" and pos: "0 < count_U s"
  shows "\<exists>i < n. cljp_candidate Sp Sj Tp Tj s w i"
proof -
  let ?A = "{i. i < n \<and> s ! i = U_NODE}"
  have fin: "finite ?A" by simp
  have ne: "?A \<noteq> {}" using pos len unfolding count_U_card by (metis card.empty less_numeral_extra(3))
  have "Max ((\<lambda>i. w ! i) ` ?A) \<in> (\<lambda>i. w ! i) ` ?A"
    using fin ne by (intro Max_in) auto
  then obtain i where i: "i \<in> ?A" "w ! i = Max ((\<lambda>i. w ! i) ` ?A)" by auto
  have top: "w ! j \<le> w ! i" if "j \<in> ?A" for j
    using that fin unfolding i(2) by (intro Max_ge) auto
  have nd: "\<not> cljp_dominated s w Xp Xj i" if "csr_wf n Xp Xj" for Xp Xj
  proof
    assume "cljp_dominated s w Xp Xj i"
    then obtain jj where jj: "jj \<in> set [Xp ! i..<Xp ! (i + 1)]"
      "s ! (Xj ! jj) = U_NODE" "w ! (Xj ! jj) > w ! i"
      by (auto simp: cljp_dominated_def list_ex_iff)
    have "Xj ! jj < n" using row_in_range[OF that _ jj(1)] i(1) by simp
    with jj(2) have "Xj ! jj \<in> ?A" by simp
    from top[OF this] jj(3) show False by simp
  qed
  show ?thesis using i(1) nd[OF wfS] nd[OF wfT] by (auto simp: cljp_candidate_def)
qed

lemma cljp_pass_inv:
  assumes wfS: "csr_wf n Sp Sj" and wfT: "csr_wf n Tp Tj" and inv: "cljp_inv n st"
  shows "cljp_inv n (cljp_pass n Sp Sj Tp Tj st)"
    and "mono_labels (cj_splitting st) (cj_splitting (cljp_pass n Sp Sj Tp Tj st))"
    and "0 < count_U (cj_splitting st) \<Longrightarrow>
         count_U (cj_splitting (cljp_pass n Sp Sj Tp Tj st)) < count_U (cj_splitting st)"
proof -
  let ?s = "cj_splitting st"
  define sel where "sel = filter (cljp_candidate Sp Sj Tp Tj ?s (cj_weight st)) [0..<n]"
  define st1 where "st1 = cljp_select n Sp Sj Tp Tj st"
  define st2 where "st2 = cljp_mark st1"
  define st3 where "st3 = cljp_p5 Sp Sj st2"
  define st4 where "st4 = cljp_p6 Sp Sj Tp Tj st3"
  have s_len: "length ?s = n" and s_ok: "labels_CFU ?s"
    and un: "cj_unassigned st = int (count_U ?s)" and dl: "length (cj_Dlist st) = n"
    using inv by (simp_all add: cljp_inv_def)
  have dn: "n \<le> length (cj_Dlist st)" using dl by simp
  note e = cljp_select_effect[OF dn, of Sp Sj Tp Tj, folded st1_def sel_def]
  have sel_U: "\<forall>d \<in> set sel. d < length ?s \<and> ?s ! d = U_NODE"
    using s_len by (auto simp: sel_def cljp_candidate_def)
  have sel_d: "distinct sel" by (simp add: sel_def)
  have "length (take (cj_nD st1) (cj_Dlist st1)) = cj_nD st1" using e(4,5) by simp
  then have nD1: "cj_nD st1 \<le> length (cj_Dlist st1)" by simp
  have st2_eq: "st2 = st1\<lparr> cj_splitting := fold (\<lambda>d s. s[d := C_NODE]) sel ?s \<rparr>"
    unfolding st2_def using cljp_mark_eq[OF nD1] e(1,4) by simp
  note ml = mark_labels[OF sel_U]
  have m2: "mono_labels ?s (cj_splitting st2)" using ml(1) by (simp add: st2_eq)
  have c2: "count_U (cj_splitting st2) + length sel = count_U ?s"
    using ml(3)[OF sel_d] by (simp add: st2_eq)
  have inv2: "cljp_inv n st2"
    using ml(2)[OF s_ok] m2 c2 e(3,5,6) un dl s_len
    by (auto simp: cljp_inv_def st2_eq mono_labels_def)
  have mid2: "cljp_mid n (cj_Dlist st1) (cj_nD st1) st2"
    using inv2 by (simp add: cljp_mid_def st2_eq)
  have dlk: "\<forall>k < cj_nD st1. cj_Dlist st1 ! k < n"
  proof (intro allI impI)
    fix k assume k: "k < cj_nD st1"
    then have "cj_Dlist st1 ! k = sel ! k" using e(4) by (metis nth_take)
    moreover have "sel ! k \<in> set sel" using k e(5) by simp
    ultimately show "cj_Dlist st1 ! k < n" using sel_U s_len by auto
  qed
  have mid3: "cljp_mid n (cj_Dlist st1) (cj_nD st1) st3"
    unfolding st3_def by (rule cljp_p5_mid[OF wfS dlk mid2])
  have mid4: "cljp_mid n (cj_Dlist st1) (cj_nD st1) st4"
    unfolding st4_def by (rule cljp_p6_mid[OF wfS wfT dlk mid3])
  have m3: "mono_labels (cj_splitting st2) (cj_splitting st3)"
    unfolding st3_def by (rule cljp_p5_mono)
  have m4: "mono_labels (cj_splitting st3) (cj_splitting st4)"
    unfolding st4_def by (rule cljp_p6_mono)
  have pass: "cljp_pass n Sp Sj Tp Tj st = st4"
    by (simp add: cljp_pass_def st4_def st3_def st2_def st1_def)
  show "cljp_inv n (cljp_pass n Sp Sj Tp Tj st)"
    using mid4 by (simp add: pass cljp_mid_def)
  show "mono_labels ?s (cj_splitting (cljp_pass n Sp Sj Tp Tj st))"
    unfolding pass by (rule mono_labels_trans[OF mono_labels_trans[OF m2 m3] m4])
  show "count_U (cj_splitting (cljp_pass n Sp Sj Tp Tj st)) < count_U ?s" if pos: "0 < count_U ?s"
  proof -
    obtain i where "i < n" "cljp_candidate Sp Sj Tp Tj ?s (cj_weight st) i"
      using exists_candidate[OF wfS wfT s_len pos] by blast
    then have "i \<in> set sel" by (simp add: sel_def)
    then have a: "0 < length sel" by (metis length_pos_if_in_set)
    have b: "count_U (cj_splitting st4) \<le> count_U (cj_splitting st2)"
      using mono_labels_count[OF mono_labels_trans[OF m3 m4]] .
    show ?thesis unfolding pass using a b c2 by linarith
  qed
qed

subsection \<open>The selection loop\<close>

lemma cljp_loop_terminates:
  assumes wfS: "csr_wf n Sp Sj" and wfT: "csr_wf n Tp Tj" and inv: "cljp_inv n st"
  shows "\<exists>st'. cljp_loop n Sp Sj Tp Tj st = Some st' \<and> cljp_inv n st'
            \<and> cj_unassigned st' = 0 \<and> mono_labels (cj_splitting st) (cj_splitting st')"
  using inv
proof (induction "count_U (cj_splitting st)" arbitrary: st rule: less_induct)
  case less
  show ?case
  proof (cases "cj_unassigned st > 0")
    case False
    moreover have "cj_unassigned st \<ge> 0" using less.prems by (simp add: cljp_inv_def)
    ultimately have "cj_unassigned st = 0" by simp
    moreover have "cljp_loop n Sp Sj Tp Tj st = Some st"
      using False by (subst cljp_loop.simps) simp
    ultimately show ?thesis using less.prems by (simp add: mono_labels_refl)
  next
    case True
    let ?st1 = "cljp_pass n Sp Sj Tp Tj st"
    have pos: "0 < count_U (cj_splitting st)" using True less.prems by (simp add: cljp_inv_def)
    note p = cljp_pass_inv[OF wfS wfT less.prems]
    from less.hyps[OF p(3)[OF pos] p(1)] obtain st' where
      st': "cljp_loop n Sp Sj Tp Tj ?st1 = Some st'" "cljp_inv n st'" "cj_unassigned st' = 0"
      "mono_labels (cj_splitting ?st1) (cj_splitting st')"
      by blast
    have "cljp_loop n Sp Sj Tp Tj st = Some st'"
      using True st'(1) by (subst cljp_loop.simps) simp
    then show ?thesis using st'(2,3) mono_labels_trans[OF p(2) st'(4)] by blast
  qed
qed

lemma fill_nth:
  "length (fill m v a) = length a
   \<and> (\<forall>p. fill m v a ! p = (if p < m \<and> p < length a then v else a ! p))"
  unfolding fill_def
proof (induction m)
  case 0
  then show ?case by simp
next
  case (Suc m)
  then show ?case by (auto simp: nth_list_update_total less_Suc_eq)
qed

lemma cljp_init_inv:
  assumes "length splitting = n"
  shows "cljp_inv n (cljp_init n Sp Sj w0 splitting)"
proof -
  let ?s = "fill n U_NODE splitting"
  have l: "length ?s = n" and v: "\<forall>p < n. ?s ! p = U_NODE"
    using fill_nth[of n U_NODE splitting] assms by auto
  have "{i. i < length ?s \<and> ?s ! i = U_NODE} = {i. i < n}" using l v by auto
  then have "count_U ?s = n" unfolding count_U_card by simp
  then show ?thesis using l v by (simp add: cljp_init_def cljp_inv_def labels_CFU_def)
qed

lemma sweep_U:
  "m \<le> length s \<Longrightarrow>
   length (fold (\<lambda>i splitting. if splitting ! i = U_NODE then splitting[i := F_NODE] else splitting) [0..<m] s)
     = length s
   \<and> (\<forall>i. fold (\<lambda>i splitting. if splitting ! i = U_NODE then splitting[i := F_NODE] else splitting) [0..<m] s ! i
          = (if i < m \<and> s ! i = U_NODE then F_NODE else s ! i))"
proof (induction m)
  case 0
  then show ?case by simp
next
  case (Suc m)
  then show ?case by (auto simp: nth_list_update less_Suc_eq)
qed

lemma cljp_finish_labels:
  assumes "length (cj_splitting st) = n"
  shows "length (cj_splitting (cljp_finish n Sp st)) = n"
    and "\<forall>i < n. cj_splitting (cljp_finish n Sp st) ! i
                 = (if cj_splitting st ! i = U_NODE then F_NODE else cj_splitting st ! i)"
    and "mono_labels (cj_splitting st) (cj_splitting (cljp_finish n Sp st))"
  using sweep_U[of n "cj_splitting st"] assms
  by (auto simp: cljp_finish_def mono_labels_def)

lemma cljp_returns_CF:
  assumes wfS: "csr_wf n Sp Sj" and wfT: "csr_wf n Tp Tj" and len: "length splitting = n"
  shows "\<exists>r. cljp_naive_splitting n Sp Sj Tp Tj w0 splitting = Some r \<and> length r = n
            \<and> (\<forall>i < n. r ! i = F_NODE \<or> r ! i = C_NODE)"
proof -
  from cljp_loop_terminates[OF wfS wfT cljp_init_inv[OF len]] obtain st' where
    st': "cljp_loop n Sp Sj Tp Tj (cljp_init n Sp Sj w0 splitting) = Some st'" "cljp_inv n st'"
    by blast
  have l: "length (cj_splitting st') = n" and ok: "labels_CFU (cj_splitting st')"
    using st'(2) by (simp_all add: cljp_inv_def)
  note f = cljp_finish_labels[OF l, of Sp]
  have "\<forall>i < n. cj_splitting (cljp_finish n Sp st') ! i = F_NODE
              \<or> cj_splitting (cljp_finish n Sp st') ! i = C_NODE"
    using f(2) ok l by (auto simp: labels_CFU_def)
  then show ?thesis using st'(1) f(1) by (simp add: cljp_naive_splitting_def)
qed

subsection \<open>Labels are only ever set on unassigned nodes\<close>

lemma fold_frame:
  assumes "\<And>x st. g (f x st) = g st"
  shows "g (fold f xs st) = g st"
  by (induction xs arbitrary: st) (simp_all add: assms)

lemma remove_edge_Dlist: "cj_Dlist (cljp_remove_edge jj j st) = cj_Dlist st"
  by (simp add: cljp_remove_edge_def Let_def)

lemma cljp_p5_Dlist: "cj_Dlist (cljp_p5 Sp Sj st) = cj_Dlist st"
  unfolding cljp_p5_def Let_def
  by (intro fold_frame) (simp add: cljp_p5_edge_def Let_def remove_edge_Dlist)

lemma cljp_p6_Dlist: "cj_Dlist (cljp_p6 Sp Sj Tp Tj st) = cj_Dlist st"
proof -
  have a: "cj_Dlist (fold (cljp_p6_cache Tj c) xs st) = cj_Dlist st" for c xs st
    by (intro fold_frame) (simp add: cljp_p6_cache_def Let_def)
  have e: "cj_Dlist (fold (cljp_p6_edge Sj c) xs st) = cj_Dlist st" for c xs st
    by (intro fold_frame) (simp add: cljp_p6_edge_def Let_def remove_edge_Dlist)
  have b: "cj_Dlist (fold (\<lambda>jj st. fold (cljp_p6_edge Sj c) [Sp ! (Tj ! jj)..<Sp ! (Tj ! jj + 1)] st) xs st)
           = cj_Dlist st" for c xs st
    by (rule fold_frame) (rule e)
  have "cj_Dlist (cljp_p6_node Sp Sj Tp Tj c st) = cj_Dlist st" for c st
    unfolding cljp_p6_node_def Let_def by (subst b) (rule a)
  then show ?thesis unfolding cljp_p6_def by (intro fold_frame) simp
qed

lemma cljp_select_mark:
  assumes "length (cj_splitting st) = n" and "length (cj_Dlist st) = n"
  shows "mono_labels (cj_splitting st) (cj_splitting (cljp_mark (cljp_select n Sp Sj Tp Tj st)))"
    and "length (cj_Dlist (cljp_mark (cljp_select n Sp Sj Tp Tj st))) = n"
proof -
  define sel where "sel = filter (cljp_candidate Sp Sj Tp Tj (cj_splitting st) (cj_weight st)) [0..<n]"
  define st1 where "st1 = cljp_select n Sp Sj Tp Tj st"
  have dn: "n \<le> length (cj_Dlist st)" using assms(2) by simp
  note e = cljp_select_effect[OF dn, of Sp Sj Tp Tj, folded st1_def sel_def]
  have sel_U: "\<forall>d \<in> set sel. d < length (cj_splitting st) \<and> cj_splitting st ! d = U_NODE"
    using assms(1) by (auto simp: sel_def cljp_candidate_def)
  have "length (take (cj_nD st1) (cj_Dlist st1)) = cj_nD st1" using e(4,5) by simp
  then have nD1: "cj_nD st1 \<le> length (cj_Dlist st1)" by simp
  have eq: "cljp_mark st1 = st1\<lparr> cj_splitting := fold (\<lambda>d s. s[d := C_NODE]) sel (cj_splitting st) \<rparr>"
    using cljp_mark_eq[OF nD1] e(1,4) by simp
  show "mono_labels (cj_splitting st) (cj_splitting (cljp_mark (cljp_select n Sp Sj Tp Tj st)))"
    using mark_labels(1)[OF sel_U] by (simp add: eq st1_def[symmetric])
  show "length (cj_Dlist (cljp_mark (cljp_select n Sp Sj Tp Tj st))) = n"
    using e(3) assms(2) by (simp add: eq st1_def[symmetric])
qed

lemma cljp_pass_mono:
  assumes "length (cj_splitting st) = n" and "length (cj_Dlist st) = n"
  shows "mono_labels (cj_splitting st) (cj_splitting (cljp_pass n Sp Sj Tp Tj st))"
    and "length (cj_Dlist (cljp_pass n Sp Sj Tp Tj st)) = n"
  using mono_labels_trans[OF mono_labels_trans[OF cljp_select_mark(1)[OF assms] cljp_p5_mono] cljp_p6_mono]
    cljp_select_mark(2)[OF assms]
  by (simp_all add: cljp_pass_def cljp_p5_Dlist cljp_p6_Dlist)

lemma cljp_loop_mono:
  assumes "cljp_loop n Sp Sj Tp Tj st = Some st'" and "arrays_sized n st"
  shows "mono_labels (cj_splitting st) (cj_splitting st')"
proof -
  have "arrays_sized n st \<longrightarrow> mono_labels (cj_splitting st) (cj_splitting st')"
  proof (rule cljp_loop.raw_induct[where P = "\<lambda>n Sp Sj Tp Tj st st'.
        arrays_sized n st \<longrightarrow> mono_labels (cj_splitting st) (cj_splitting st')", OF _ assms(1)])
    fix rec :: "nat \<Rightarrow> nat list \<Rightarrow> nat list \<Rightarrow> nat list \<Rightarrow> nat list \<Rightarrow> cljp_state \<Rightarrow> cljp_state option"
    fix n Sp Sj Tp Tj st st'
    assume IH: "\<And>n Sp Sj Tp Tj st st'. rec n Sp Sj Tp Tj st = Some st' \<Longrightarrow>
        arrays_sized n st \<longrightarrow> mono_labels (cj_splitting st) (cj_splitting st')"
    assume step: "(if cj_unassigned st > 0 then rec n Sp Sj Tp Tj (cljp_pass n Sp Sj Tp Tj st)
      else Some st) = Some st'"
    show "arrays_sized n st \<longrightarrow> mono_labels (cj_splitting st) (cj_splitting st')"
    proof
      assume sz: "arrays_sized n st"
      then have l: "length (cj_splitting st) = n" "length (cj_Dlist st) = n"
        by (simp_all add: arrays_sized_def)
      show "mono_labels (cj_splitting st) (cj_splitting st')"
      proof (cases "cj_unassigned st > 0")
        case False
        with step show ?thesis by (simp add: mono_labels_refl)
      next
        case True
        with step have r: "rec n Sp Sj Tp Tj (cljp_pass n Sp Sj Tp Tj st) = Some st'" by simp
        note p = cljp_pass_mono[OF l, of Sp Sj Tp Tj]
        have "arrays_sized n (cljp_pass n Sp Sj Tp Tj st)"
          using p l by (simp add: arrays_sized_def mono_labels_def)
        with IH[OF r] have "mono_labels (cj_splitting (cljp_pass n Sp Sj Tp Tj st)) (cj_splitting st')"
          by simp
        then show ?thesis using mono_labels_trans[OF p(1)] by simp
      qed
    qed
  qed
  then show ?thesis using assms(2) by simp
qed

text \<open>
  Claim C3 (\<^verbatim>\<open>cljp_naive_splitting\<close>, the selection loop): for strength matrices \<open>S\<close>
  and \<open>T\<close> whose column indices are nodes, in every state in which \<^verbatim>\<open>unassigned\<close> is the
  number of \<open>U_NODE\<close> labels (\<open>cljp_inv\<close>, which the initialisation establishes and every
  pass keeps) and is positive, one pass of the loop strictly decreases the number of
  \<open>U_NODE\<close> labels and the counter; hence the loop terminates, from such a state and from
  the initial one, with the counter and the number of \<open>U_NODE\<close> labels at zero.
\<close>

theorem cljp_selection_terminates:
  assumes "csr_wf n Sp Sj" and "csr_wf n Tp Tj"
    and "cljp_inv n st" and "0 < cj_unassigned st"
    and "length splitting = n"
  shows "count_U (cj_splitting (cljp_pass n Sp Sj Tp Tj st)) < count_U (cj_splitting st)
       \<and> cj_unassigned (cljp_pass n Sp Sj Tp Tj st) < cj_unassigned st
       \<and> cljp_inv n (cljp_pass n Sp Sj Tp Tj st)
       \<and> (\<exists>st'. cljp_loop n Sp Sj Tp Tj st = Some st' \<and> cj_unassigned st' = 0)
       \<and> (\<exists>st'. cljp_loop n Sp Sj Tp Tj (cljp_init n Sp Sj w0 splitting) = Some st'
                 \<and> cj_unassigned st' = 0 \<and> count_U (cj_splitting st') = 0)"
proof -
  have pos: "0 < count_U (cj_splitting st)" using assms(3,4) by (simp add: cljp_inv_def)
  note p = cljp_pass_inv[OF assms(1,2,3)]
  have a: "count_U (cj_splitting (cljp_pass n Sp Sj Tp Tj st)) < count_U (cj_splitting st)"
    by (rule p(3)[OF pos])
  have b: "cj_unassigned (cljp_pass n Sp Sj Tp Tj st) < cj_unassigned st"
    using a p(1) assms(3) by (simp add: cljp_inv_def)
  have c: "\<exists>st'. cljp_loop n Sp Sj Tp Tj st = Some st' \<and> cj_unassigned st' = 0"
    using cljp_loop_terminates[OF assms(1,2,3)] by blast
  have d: "\<exists>st'. cljp_loop n Sp Sj Tp Tj (cljp_init n Sp Sj w0 splitting) = Some st'
                 \<and> cj_unassigned st' = 0 \<and> count_U (cj_splitting st') = 0"
    using cljp_loop_terminates[OF assms(1,2) cljp_init_inv[OF assms(5), where Sp=Sp and Sj=Sj and ?w0.0=w0]]
    by (auto simp: cljp_inv_def)
  show ?thesis using a b p(1) c d by blast
qed

theorem cljp_selection_terminates_witness:
  "count_U (cj_splitting (cljp_pass 3 [0, 0, 1, 2] [0, 1] [0, 1, 2, 2] [1, 2]
                            (cljp_init 3 [0, 0, 1, 2] [0, 1] [0, 1 / 2, 0] [0, 0, 0])))
     < count_U (cj_splitting (cljp_init 3 [0, 0, 1, 2] [0, 1] [0, 1 / 2, 0] [0, 0, 0]))
   \<and> (\<exists>st'. cljp_loop 3 [0, 0, 1, 2] [0, 1] [0, 1, 2, 2] [1, 2]
                (cljp_init 3 [0, 0, 1, 2] [0, 1] [0, 1 / 2, 0] [0, 0, 0]) = Some st'
             \<and> cj_unassigned st' = 0 \<and> count_U (cj_splitting st') = 0)"
proof -
  have wfS: "csr_wf 3 [0, 0, 1, 2] [0, 1]" by code_simp
  have wfT: "csr_wf 3 [0, 1, 2, 2] [1, 2]" by code_simp
  have len: "length [0, 0, 0::nat] = 3" by simp
  have inv: "cljp_inv 3 (cljp_init 3 [0, 0, 1, 2] [0, 1] [0, 1 / 2, 0] [0, 0, 0])"
    by (rule cljp_init_inv[OF len])
  have pos: "0 < cj_unassigned (cljp_init 3 [0, 0, 1, 2] [0, 1] [0, 1 / 2, 0] [0, 0, 0])"
    by (simp add: cljp_init_def)
  from cljp_selection_terminates[OF wfS wfT inv pos len, of "[0, 1 / 2, 0]"]
  show ?thesis by blast
qed

text \<open>
  Claim C10 (\<^verbatim>\<open>cljp_naive_splitting\<close>): labels are monotone. In every state whose
  arrays \<open>splitting\<close> and \<open>Dlist\<close> have \<open>n\<close> entries, each phase of a pass (selecting
  and marking the set \<open>D\<close>, pruning P5, pruning P6), a whole pass, any run of the selection
  loop that ends, and the final sweep leave every label that is not \<open>U_NODE\<close> as it is:
  \<open>C_NODE\<close> and \<open>F_NODE\<close> are only assigned to nodes labelled \<open>U_NODE\<close>.
\<close>

theorem cljp_labels_monotone:
  assumes "arrays_sized n st"
  shows "mono_labels (cj_splitting st) (cj_splitting (cljp_mark (cljp_select n Sp Sj Tp Tj st)))
       \<and> mono_labels (cj_splitting st) (cj_splitting (cljp_p5 Sp Sj st))
       \<and> mono_labels (cj_splitting st) (cj_splitting (cljp_p6 Sp Sj Tp Tj st))
       \<and> mono_labels (cj_splitting st) (cj_splitting (cljp_pass n Sp Sj Tp Tj st))
       \<and> mono_labels (cj_splitting st) (cj_splitting (cljp_finish n Sp st))
       \<and> (\<forall>st'. cljp_loop n Sp Sj Tp Tj st = Some st'
              \<longrightarrow> mono_labels (cj_splitting st) (cj_splitting st'))"
proof -
  have l: "length (cj_splitting st) = n" "length (cj_Dlist st) = n"
    using assms by (simp_all add: arrays_sized_def)
  have loop: "\<forall>st'. cljp_loop n Sp Sj Tp Tj st = Some st'
              \<longrightarrow> mono_labels (cj_splitting st) (cj_splitting st')"
    using cljp_loop_mono[OF _ assms] by blast
  show ?thesis
    using cljp_select_mark(1)[OF l, of Sp Sj Tp Tj] cljp_p5_mono[of st Sp Sj]
      cljp_p6_mono[of st Sp Sj Tp Tj] cljp_pass_mono(1)[OF l, of Sp Sj Tp Tj]
      cljp_finish_labels(3)[OF l(1), of Sp] loop
    by blast
qed

theorem cljp_labels_monotone_witness:
  "mono_labels [U_NODE, U_NODE, U_NODE]
     (cj_splitting (cljp_pass 3 [0, 0, 1, 2] [0, 1] [0, 1, 2, 2] [1, 2]
                      (cljp_init 3 [0, 0, 1, 2] [0, 1] [0, 1 / 2, 0] [0, 0, 0])))
   \<and> cj_splitting (cljp_pass 3 [0, 0, 1, 2] [0, 1] [0, 1, 2, 2] [1, 2]
                      (cljp_init 3 [0, 0, 1, 2] [0, 1] [0, 1 / 2, 0] [0, 0, 0]))
       = [F_NODE, C_NODE, U_NODE]
   \<and> mono_labels [F_NODE, C_NODE, U_NODE]
       (cj_splitting (cljp_pass 3 [0, 0, 1, 2] [0, 1] [0, 1, 2, 2] [1, 2]
          (cljp_pass 3 [0, 0, 1, 2] [0, 1] [0, 1, 2, 2] [1, 2]
             (cljp_init 3 [0, 0, 1, 2] [0, 1] [0, 1 / 2, 0] [0, 0, 0]))))
   \<and> cj_splitting (cljp_pass 3 [0, 0, 1, 2] [0, 1] [0, 1, 2, 2] [1, 2]
          (cljp_pass 3 [0, 0, 1, 2] [0, 1] [0, 1, 2, 2] [1, 2]
             (cljp_init 3 [0, 0, 1, 2] [0, 1] [0, 1 / 2, 0] [0, 0, 0])))
       = [F_NODE, C_NODE, C_NODE]"
proof -
  let ?init = "cljp_init 3 [0, 0, 1, 2] [0, 1] [0, 1 / 2, 0] [0, 0, 0]"
  let ?st1 = "cljp_pass 3 [0, 0, 1, 2] [0, 1] [0, 1, 2, 2] [1, 2] ?init"
  have s0: "cj_splitting ?init = [U_NODE, U_NODE, U_NODE]" by code_simp
  have s1: "cj_splitting ?st1 = [F_NODE, C_NODE, U_NODE]" by code_simp
  have s2: "cj_splitting (cljp_pass 3 [0, 0, 1, 2] [0, 1] [0, 1, 2, 2] [1, 2] ?st1)
            = [F_NODE, C_NODE, C_NODE]" by code_simp
  have d0: "length (cj_Dlist ?init) = 3" by code_simp
  have d1: "length (cj_Dlist ?st1) = 3" by code_simp
  have a0: "arrays_sized 3 ?init" using s0 d0 by (simp add: arrays_sized_def)
  have a1: "arrays_sized 3 ?st1" using s1 d1 by (simp add: arrays_sized_def)
  from cljp_labels_monotone[OF a0, of "[0, 0, 1, 2]" "[0, 1]" "[0, 1, 2, 2]" "[1, 2]"]
    cljp_labels_monotone[OF a1, of "[0, 0, 1, 2]" "[0, 1]" "[0, 1, 2, 2]" "[1, 2]"]
  show ?thesis unfolding s0 s1 s2 by blast
qed

text \<open>
  Claim C7 (\<^verbatim>\<open>cljp_naive_splitting\<close>, the set \<open>D\<close>): the claim says that the nodes
  promoted in one iteration are pairwise not adjacent in \<open>S \<union> S\<^sup>T\<close>, also when adjacent
  nodes carry equal weights. The code keeps a node unless a neighbour has a strictly
  greater weight, so two adjacent nodes of equal weight are both promoted. The input has
  3 nodes and the entries \<open>S(1,0)\<close> and \<open>S(2,1)\<close>; the seed weights are all 0 (one colour),
  so that the weights are \<open>[1, 1, 0]\<close>. The first selection gives \<open>D = {0, 1}\<close>, both are
  labelled \<open>C_NODE\<close>, and row 1 of \<open>S\<close> holds column 0.
\<close>

theorem cljp_selects_adjacent_nodes_on_ties:
  "cj_weight (cljp_init 3 [0, 0, 1, 2] [0, 1] [0, 0, 0] [0, 0, 0]) = [1, 1, 0]
   \<and> take (cj_nD (cljp_select 3 [0, 0, 1, 2] [0, 1] [0, 1, 2, 2] [1, 2]
                     (cljp_init 3 [0, 0, 1, 2] [0, 1] [0, 0, 0] [0, 0, 0])))
           (cj_Dlist (cljp_select 3 [0, 0, 1, 2] [0, 1] [0, 1, 2, 2] [1, 2]
                     (cljp_init 3 [0, 0, 1, 2] [0, 1] [0, 0, 0] [0, 0, 0])))
       = [0, 1]
   \<and> cj_splitting (cljp_pass 3 [0, 0, 1, 2] [0, 1] [0, 1, 2, 2] [1, 2]
                     (cljp_init 3 [0, 0, 1, 2] [0, 1] [0, 0, 0] [0, 0, 0]))
       = [C_NODE, C_NODE, U_NODE]
   \<and> [[0, 0, 1, 2] ! 1..<[0, 0, 1, 2] ! 2] = [0] \<and> [0, 1] ! 0 = (0::nat)"
  by code_simp

section \<open>Results on the classical Ruge-Stuben splitting\<close>

subsection \<open>Sums of bucket sizes\<close>

lemma pre_sum_Suc: "pre_sum cnt (Suc l) = pre_sum cnt l + cnt ! l"
  by (simp add: pre_sum_def)

lemma pre_sum_mono: "a \<le> b \<Longrightarrow> pre_sum cnt a \<le> pre_sum cnt b"
  unfolding pre_sum_def by (intro sum_mono2) auto

lemma pre_sum_Suc_le: "a < b \<Longrightarrow> pre_sum cnt a + cnt ! a \<le> pre_sum cnt b"
  using pre_sum_mono[of "Suc a" b cnt] by (simp add: pre_sum_Suc)

lemma pre_sum_update_above: "l \<le> a \<Longrightarrow> pre_sum (cnt[a := x]) l = pre_sum cnt l"
  unfolding pre_sum_def by (intro sum.cong) auto

lemma pre_sum_update_below:
  assumes "a < l" "a < length cnt"
  shows "pre_sum (cnt[a := x]) l + cnt ! a = pre_sum cnt l + x"
proof -
  have fin: "finite {..<l}" and mem: "a \<in> {..<l}" using assms by auto
  have "pre_sum (cnt[a := x]) l = x + (\<Sum>k \<in> {..<l} - {a}. cnt[a := x] ! k)"
    unfolding pre_sum_def using sum.remove[OF fin mem, of "\<lambda>k. cnt[a := x] ! k"] assms by simp
  also have "(\<Sum>k \<in> {..<l} - {a}. cnt[a := x] ! k) = (\<Sum>k \<in> {..<l} - {a}. cnt ! k)"
    by (intro sum.cong) auto
  finally have "pre_sum (cnt[a := x]) l + cnt ! a = x + (cnt ! a + (\<Sum>k \<in> {..<l} - {a}. cnt ! k))"
    by simp
  also have "cnt ! a + (\<Sum>k \<in> {..<l} - {a}. cnt ! k) = pre_sum cnt l"
    unfolding pre_sum_def using sum.remove[OF fin mem, of "\<lambda>k. cnt ! k"] by simp
  finally show ?thesis by simp
qed

lemma pre_sum_full_zero:
  assumes "pre_sum cnt (Suc k) = pre_sum cnt L" "k < l" "l < L"
  shows "cnt ! l = 0"
proof -
  have "pre_sum cnt l + cnt ! l \<le> pre_sum cnt L" using pre_sum_Suc_le[OF assms(3)] .
  moreover have "pre_sum cnt (Suc k) \<le> pre_sum cnt l" using assms(2) by (intro pre_sum_mono) simp
  ultimately show ?thesis using assms(1) by simp
qed

lemma bucket_unique:
  assumes e: "\<forall>l < L. 0 < cnt ! l \<longrightarrow> ptr ! l = pre_sum cnt l"
    and a: "a < L" "ptr ! a \<le> p" "p < ptr ! a + cnt ! a"
    and b: "b < L" "ptr ! b \<le> p" "p < ptr ! b + cnt ! b"
  shows "a = b"
proof (rule ccontr)
  assume ne: "a \<noteq> b"
  have ca: "0 < cnt ! a" and cb: "0 < cnt ! b" using a b by auto
  have pa: "ptr ! a = pre_sum cnt a" and pb: "ptr ! b = pre_sum cnt b"
    using e a(1) b(1) ca cb by auto
  show False
  proof (cases "a < b")
    case True
    from pre_sum_Suc_le[OF this, of cnt] a b show False unfolding pa pb by simp
  next
    case False
    with ne have "b < a" by simp
    from pre_sum_Suc_le[OF this, of cnt] a b show False unfolding pa pb by simp
  qed
qed

subsection \<open>Moving a node to the next bucket\<close>

lemma rs_inv_facts:
  assumes "rs_inv n m st"
  shows "m \<le> n"
    and "length (rs_index_to_node st) = n" and "length (rs_node_to_index st) = n"
    and "\<And>p. p < n \<Longrightarrow> rs_index_to_node st ! p < n"
    and "\<And>p. p < n \<Longrightarrow> rs_node_to_index st ! (rs_index_to_node st ! p) = p"
    and "\<And>v. v < n \<Longrightarrow> rs_node_to_index st ! v < n"
    and "\<And>v. v < n \<Longrightarrow> rs_index_to_node st ! (rs_node_to_index st ! v) = v"
    and "length (rs_lambda st) = n"
    and "length (rs_interval_ptr st) = length (rs_interval_count st)"
    and "n + 1 \<le> length (rs_interval_count st)"
    and "\<And>v. v < n \<Longrightarrow> rs_lambda st ! v < length (rs_interval_count st)"
    and "\<And>p. p < m \<Longrightarrow> rs_interval_ptr st ! (rs_lambda st ! (rs_index_to_node st ! p)) \<le> p"
    and "\<And>p. p < m \<Longrightarrow> p < rs_interval_ptr st ! (rs_lambda st ! (rs_index_to_node st ! p))
                       + rs_interval_count st ! (rs_lambda st ! (rs_index_to_node st ! p))"
    and "\<And>l. l < length (rs_interval_count st) \<Longrightarrow> 0 < rs_interval_count st ! l
            \<Longrightarrow> rs_interval_ptr st ! l = pre_sum (rs_interval_count st) l"
    and "pre_sum (rs_interval_count st) (length (rs_interval_count st)) = m"
    and "length (rs_splitting st) = n"
    and "\<And>v. v < n \<Longrightarrow> rs_splitting st ! v = U_NODE \<Longrightarrow> rs_node_to_index st ! v < m"
  using assms unfolding rs_inv_def rs_perm_def rs_buckets_def rs_labels_def by blast+

lemma rs_increment_fields:
  "rs_splitting (rs_increment k st) = rs_splitting st"
  "rs_lambda (rs_increment k st) = (rs_lambda st)[k := rs_lambda st ! k + 1]"
  "rs_interval_ptr (rs_increment k st)
     = (rs_interval_ptr st)[rs_lambda st ! k + 1
          := rs_interval_ptr st ! (rs_lambda st ! k) + rs_interval_count st ! (rs_lambda st ! k) - 1]"
  "rs_interval_count (rs_increment k st)
     = ((rs_interval_count st)[rs_lambda st ! k := rs_interval_count st ! (rs_lambda st ! k) - 1])
         [rs_lambda st ! k + 1
            := ((rs_interval_count st)[rs_lambda st ! k := rs_interval_count st ! (rs_lambda st ! k) - 1])
                 ! (rs_lambda st ! k + 1) + 1]"
  "rs_index_to_node (rs_increment k st)
     = (rs_index_to_node st)
         [rs_node_to_index st ! k
            := rs_index_to_node st ! (rs_interval_ptr st ! (rs_lambda st ! k) + rs_interval_count st ! (rs_lambda st ! k) - 1),
          rs_interval_ptr st ! (rs_lambda st ! k) + rs_interval_count st ! (rs_lambda st ! k) - 1
            := rs_index_to_node st ! (rs_node_to_index st ! k)]"
  "rs_node_to_index (rs_increment k st)
     = (rs_node_to_index st)
         [rs_index_to_node st ! (rs_node_to_index st ! k)
            := rs_interval_ptr st ! (rs_lambda st ! k) + rs_interval_count st ! (rs_lambda st ! k) - 1,
          rs_index_to_node st ! (rs_interval_ptr st ! (rs_lambda st ! k) + rs_interval_count st ! (rs_lambda st ! k) - 1)
            := rs_node_to_index st ! k]"
  by (simp_all add: rs_increment_def rs_swap_def Let_def)

lemma swap_perm:
  fixes i2n n2i :: "nat list"
  assumes len: "length i2n = n" "length n2i = n"
    and P1a: "\<forall>p < n. i2n ! p < n \<and> n2i ! (i2n ! p) = p"
    and P2a: "\<forall>v < n. n2i ! v < n \<and> i2n ! (n2i ! v) = v"
    and a: "a < n" and b: "b < n"
  defines "i2n' \<equiv> i2n[a := i2n ! b, b := i2n ! a]"
  defines "n2i' \<equiv> n2i[i2n ! a := b, i2n ! b := a]"
  shows "length i2n' = n" "length n2i' = n"
    and "\<And>p. p < n \<Longrightarrow> i2n' ! p = (if p = b then i2n ! a else if p = a then i2n ! b else i2n ! p)"
    and "\<And>v. v < n \<Longrightarrow> n2i' ! v = (if v = i2n ! b then a else if v = i2n ! a then b else n2i ! v)"
    and "\<And>p. p < n \<Longrightarrow> i2n' ! p < n \<and> n2i' ! (i2n' ! p) = p"
    and "\<And>v. v < n \<Longrightarrow> n2i' ! v < n \<and> i2n' ! (n2i' ! v) = v"
proof -
  have P1: "\<And>p. p < n \<Longrightarrow> i2n ! p < n \<and> n2i ! (i2n ! p) = p" using P1a by simp
  have P2: "\<And>v. v < n \<Longrightarrow> n2i ! v < n \<and> i2n ! (n2i ! v) = v" using P2a by simp
  show l1: "length i2n' = n" and l2: "length n2i' = n" using len by (simp_all add: i2n'_def n2i'_def)
  have va: "i2n ! a < n" and vb: "i2n ! b < n" using P1 a b by auto
  show e1: "i2n' ! p = (if p = b then i2n ! a else if p = a then i2n ! b else i2n ! p)" if "p < n" for p
    using that len a b by (simp add: i2n'_def nth_list_update)
  show e2: "n2i' ! v = (if v = i2n ! b then a else if v = i2n ! a then b else n2i ! v)" if "v < n" for v
    using that len va vb by (simp add: n2i'_def nth_list_update)
  have inj: "i2n ! p = i2n ! q \<Longrightarrow> p = q" if "p < n" "q < n" for p q
    using P1[OF that(1)] P1[OF that(2)] by metis
  show "i2n' ! p < n \<and> n2i' ! (i2n' ! p) = p" if p: "p < n" for p
  proof -
    have "i2n' ! p < n" using e1[OF p] va vb P1[OF p] by auto
    moreover have "n2i' ! (i2n' ! p) = p"
      using e1[OF p] e2[OF \<open>i2n' ! p < n\<close>] P1[OF p] inj[OF p a] inj[OF p b] inj[OF a b]
      by (auto split: if_splits)
    ultimately show ?thesis by simp
  qed
  show "n2i' ! v < n \<and> i2n' ! (n2i' ! v) = v" if v: "v < n" for v
  proof -
    have "n2i' ! v < n" using e2[OF v] a b P2[OF v] by auto
    moreover have "i2n' ! (n2i' ! v) = v"
      using e1[OF \<open>n2i' ! v < n\<close>] e2[OF v] P2[OF v] P1[OF a] P1[OF b]
      by (auto split: if_splits)
    ultimately show ?thesis by simp
  qed
qed

lemma rs_increment_inv:
  assumes inv: "rs_inv n m st" and k: "k < n"
    and U: "rs_splitting st ! k = U_NODE" and sat: "rs_lambda st ! k < n - 1"
  shows "rs_inv n m (rs_increment k st)"
proof -
  define lam where "lam = rs_lambda st"
  define ptr where "ptr = rs_interval_ptr st"
  define cnt where "cnt = rs_interval_count st"
  define i2n where "i2n = rs_index_to_node st"
  define n2i where "n2i = rs_node_to_index st"
  define L where "L = length cnt"
  define l where "l = lam ! k"
  define old where "old = n2i ! k"
  define new where "new = ptr ! l + cnt ! l - 1"
  define w where "w = i2n ! new"
  note f = rs_inv_facts[OF inv, folded lam_def ptr_def cnt_def i2n_def n2i_def L_def]
  have old_m: "old < m" using f(17)[OF k U] by (simp add: old_def)
  have i2n_old: "i2n ! old = k" using f(7)[OF k] by (simp add: old_def)
  have lL: "l < L" using f(11)[OF k] by (simp add: l_def)
  have in_lo: "ptr ! l \<le> old" and in_hi: "old < ptr ! l + cnt ! l"
    using f(12)[OF old_m] f(13)[OF old_m] by (simp_all add: i2n_old l_def)
  have cl: "0 < cnt ! l" using in_lo in_hi by simp
  have pl: "ptr ! l = pre_sum cnt l" using f(14)[OF lL cl] .
  have top_le: "ptr ! l + cnt ! l \<le> m" using pre_sum_Suc_le[OF lL, of cnt] f(15) pl by simp
  have new1: "new + 1 = ptr ! l + cnt ! l" using cl by (simp add: new_def)
  have old_new: "old \<le> new" and new_m: "new < m" using in_hi top_le new1 by simp_all
  have mn: "m \<le> n" by (rule f(1))
  have new_n: "new < n" and old_n: "old < n" using new_m old_m mn by simp_all
  have w_n: "w < n" and n2i_w: "n2i ! w = new" using f(4)[OF new_n] f(5)[OF new_n] by (simp_all add: w_def)
  have lam_w: "lam ! w = l"
  proof -
    have "lam ! w < L" using f(11)[OF w_n] .
    moreover have "ptr ! (lam ! w) \<le> new" "new < ptr ! (lam ! w) + cnt ! (lam ! w)"
      using f(12)[OF new_m] f(13)[OF new_m] by (simp_all add: w_def)
    moreover have "ptr ! l \<le> new" "new < ptr ! l + cnt ! l" using in_lo old_new new1 by simp_all
    ultimately show ?thesis using bucket_unique[of L cnt ptr "lam ! w" new l] f(14) lL by blast
  qed
  have l1: "l + 1 < L" using sat f(10) by (simp add: l_def lam_def L_def cnt_def)
  define st' where "st' = rs_increment k st"
  define lam' where "lam' = rs_lambda st'"
  define ptr' where "ptr' = rs_interval_ptr st'"
  define cnt' where "cnt' = rs_interval_count st'"
  define i2n' where "i2n' = rs_index_to_node st'"
  define n2i' where "n2i' = rs_node_to_index st'"
  have lam'_eq: "lam' = lam[k := l + 1]"
    by (simp add: lam'_def st'_def rs_increment_fields lam_def l_def)
  have ptr'_eq: "ptr' = ptr[l + 1 := new]"
    by (simp add: ptr'_def st'_def rs_increment_fields ptr_def lam_def l_def new_def cnt_def)
  have cnt'_eq: "cnt' = (cnt[l := cnt ! l - 1])[l + 1 := cnt ! (l + 1) + 1]"
    by (simp add: cnt'_def st'_def rs_increment_fields cnt_def lam_def l_def)
  have i2n'_eq: "i2n' = i2n[old := i2n ! new, new := i2n ! old]"
    by (simp add: i2n'_def st'_def rs_increment_fields i2n_def n2i_def old_def new_def ptr_def cnt_def lam_def l_def)
  have n2i'_eq: "n2i' = n2i[i2n ! old := new, i2n ! new := old]"
    by (simp add: n2i'_def st'_def rs_increment_fields i2n_def n2i_def old_def new_def ptr_def cnt_def lam_def l_def)
  have spl': "rs_splitting st' = rs_splitting st" by (simp add: st'_def rs_increment_fields)
  have P1: "\<forall>p < n. i2n ! p < n \<and> n2i ! (i2n ! p) = p" using f(4,5) by simp
  have P2: "\<forall>v < n. n2i ! v < n \<and> i2n ! (n2i ! v) = v" using f(6,7) by simp
  note sw = swap_perm[of i2n n n2i old new, OF f(2,3) P1 P2 old_n new_n, folded i2n'_eq n2i'_eq]
  have i2n'_nth: "i2n' ! p = (if p = new then k else if p = old then w else i2n ! p)" if "p < n" for p
    using sw(3)[OF that] by (simp add: i2n_old w_def)
  have n2i'_nth: "n2i' ! v = (if v = w then old else if v = k then new else n2i ! v)" if "v < n" for v
    using sw(4)[OF that] by (simp add: i2n_old w_def)
  have lam'_nth: "lam' ! v = (if v = k then l + 1 else lam ! v)" if "v < n" for v
    using that f(8) by (simp add: lam'_eq nth_list_update)
  have cnt'_nth: "cnt' ! a = (if a = l + 1 then cnt ! (l + 1) + 1 else if a = l then cnt ! l - 1 else cnt ! a)"
    if "a < L" for a
    using that by (simp add: cnt'_eq nth_list_update L_def)
  have ptr'_nth: "ptr' ! a = (if a = l + 1 then new else ptr ! a)" if "a < L" for a
    using that f(9) by (simp add: ptr'_eq nth_list_update L_def)
  have len': "length cnt' = L" "length ptr' = L" "length lam' = n"
    using f(8,9) by (simp_all add: cnt'_eq ptr'_eq lam'_eq L_def)
  have ps_low: "pre_sum cnt' a = pre_sum cnt a" if "a \<le> l" for a
    using that by (simp add: cnt'_eq pre_sum_update_above)
  have ps_mid: "pre_sum cnt' (l + 1) = new"
  proof -
    have "pre_sum cnt' (l + 1) = pre_sum cnt' l + cnt' ! l" using pre_sum_Suc[of cnt' l] by simp
    then show ?thesis using ps_low[of l] cnt'_nth[OF lL] pl new1 cl by simp
  qed
  have ps_high: "pre_sum cnt' a = pre_sum cnt a" if "l + 1 < a" for a
  proof -
    let ?c1 = "cnt[l := cnt ! l - 1]"
    have a1: "pre_sum ?c1 a + cnt ! l = pre_sum cnt a + (cnt ! l - 1)"
      using pre_sum_update_below[of l a cnt "cnt ! l - 1"] that lL by (simp add: L_def)
    have a2: "pre_sum cnt' a + ?c1 ! (l + 1) = pre_sum ?c1 a + (cnt ! (l + 1) + 1)"
      unfolding cnt'_eq using pre_sum_update_below[of "l + 1" a ?c1 "cnt ! (l + 1) + 1"] that l1
      by (simp add: L_def)
    have "?c1 ! (l + 1) = cnt ! (l + 1)" by simp
    with a1 a2 cl show ?thesis by simp
  qed
  have next_ptr: "ptr ! (l + 1) = new + 1" if "0 < cnt ! (l + 1)"
    using f(14)[OF l1 that] pre_sum_Suc[of cnt l] pl new1 by simp
  have perm': "rs_perm n st'"
    unfolding rs_perm_def using sw(1,2,5,6)
    by (simp add: i2n'_def[symmetric] n2i'_def[symmetric])
  have d': "ptr' ! (lam' ! (i2n' ! p)) \<le> p \<and> p < ptr' ! (lam' ! (i2n' ! p)) + cnt' ! (lam' ! (i2n' ! p))"
    if p: "p < m" for p
  proof -
    have pn: "p < n" using p mn by simp
    consider (at_new) "p = new" | (at_old) "p = old" "p \<noteq> new" | (other) "p \<noteq> new" "p \<noteq> old" by blast
    then show ?thesis
    proof cases
      case at_new
      then have "i2n' ! p = k" using i2n'_nth[OF pn] by simp
      then have "lam' ! (i2n' ! p) = l + 1" using lam'_nth[OF k] by simp
      then show ?thesis using at_new ptr'_nth[OF l1] cnt'_nth[OF l1] by simp
    next
      case at_old
      then have v: "i2n' ! p = w" using i2n'_nth[OF pn] by simp
      have "w \<noteq> k" using at_old n2i_w by (auto simp: old_def)
      then have "lam' ! (i2n' ! p) = l" using v lam'_nth[OF w_n] lam_w by simp
      then show ?thesis using at_old ptr'_nth[OF lL] cnt'_nth[OF lL] in_lo old_new new1 by simp
    next
      case other
      then have v: "i2n' ! p = i2n ! p" using i2n'_nth[OF pn] by simp
      have vn: "i2n ! p < n" using f(4)[OF pn] .
      have "i2n ! p \<noteq> k" using other f(5)[OF pn] by (auto simp: old_def)
      then have lv: "lam' ! (i2n' ! p) = lam ! (i2n ! p)" using v lam'_nth[OF vn] by simp
      let ?a = "lam ! (i2n ! p)"
      have aL: "?a < L" using f(11)[OF vn] .
      have lo: "ptr ! ?a \<le> p" and hi: "p < ptr ! ?a + cnt ! ?a" using f(12)[OF p] f(13)[OF p] by simp_all
      consider (same) "?a = l" | (succ) "?a = l + 1" | (far) "?a \<noteq> l" "?a \<noteq> l + 1" by blast
      then show ?thesis
      proof cases
        case same
        then show ?thesis unfolding lv using lo hi other new1 ptr'_nth[OF lL] cnt'_nth[OF lL] by simp
      next
        case succ
        have "0 < cnt ! (l + 1)" using lo hi succ by simp
        from next_ptr[OF this] show ?thesis
          unfolding lv using lo hi succ ptr'_nth[OF l1] cnt'_nth[OF l1] by simp
      next
        case far
        then show ?thesis unfolding lv using lo hi ptr'_nth[OF aL] cnt'_nth[OF aL] by simp
      qed
    qed
  qed
  have e': "ptr' ! a = pre_sum cnt' a" if a: "a < L" "0 < cnt' ! a" for a
  proof -
    consider (low) "a < l" | (same) "a = l" | (succ) "a = l + 1" | (high) "l + 1 < a" by linarith
    then show ?thesis
    proof cases
      case low
      then show ?thesis using a f(14)[OF a(1)] ptr'_nth[OF a(1)] cnt'_nth[OF a(1)] ps_low[of a] by simp
    next
      case same
      then show ?thesis using ptr'_nth[OF lL] ps_low[of l] pl by simp
    next
      case succ
      then show ?thesis using ptr'_nth[OF l1] ps_mid by simp
    next
      case high
      then show ?thesis using a f(14)[OF a(1)] ptr'_nth[OF a(1)] cnt'_nth[OF a(1)] ps_high[OF high] by simp
    qed
  qed
  have f': "pre_sum cnt' L = m" using ps_high[OF l1] f(15) by simp
  have lamL': "lam' ! v < L" if "v < n" for v
    using lam'_nth[OF that] f(11)[OF that] l1 by simp
  have buckets': "rs_buckets n m st'"
    unfolding rs_buckets_def
    using len' f(10) lamL' d' e' f'
    by (simp add: lam'_def[symmetric] ptr'_def[symmetric] cnt'_def[symmetric] i2n'_def[symmetric] L_def[symmetric])
  have g': "n2i' ! v < m" if "v < n" "rs_splitting st' ! v = U_NODE" for v
    using n2i'_nth[OF that(1)] f(17)[OF that(1)] that(2) spl' old_m new_m by (simp add: n2i_def)
  have labels': "rs_labels n m st'"
    unfolding rs_labels_def using g' f(16) spl' by (simp add: n2i'_def[symmetric])
  show ?thesis unfolding st'_def[symmetric] rs_inv_def using mn perm' buckets' labels' by simp
qed

subsection \<open>Moving a node to the previous bucket\<close>

lemma rs_decrement_fields:
  "rs_splitting (rs_decrement j st) = rs_splitting st"
  "rs_lambda (rs_decrement j st) = (rs_lambda st)[j := rs_lambda st ! j - 1]"
  "rs_interval_count (rs_decrement j st)
     = ((rs_interval_count st)[rs_lambda st ! j := rs_interval_count st ! (rs_lambda st ! j) - 1])
         [rs_lambda st ! j - 1
            := ((rs_interval_count st)[rs_lambda st ! j := rs_interval_count st ! (rs_lambda st ! j) - 1])
                 ! (rs_lambda st ! j - 1) + 1]"
  "rs_interval_ptr (rs_decrement j st)
     = ((rs_interval_ptr st)[rs_lambda st ! j := rs_interval_ptr st ! (rs_lambda st ! j) + 1])
         [rs_lambda st ! j - 1
            := ((rs_interval_ptr st)[rs_lambda st ! j := rs_interval_ptr st ! (rs_lambda st ! j) + 1])
                 ! (rs_lambda st ! j)
               - rs_interval_count (rs_decrement j st) ! (rs_lambda st ! j - 1)]"
  "rs_index_to_node (rs_decrement j st)
     = (rs_index_to_node st)
         [rs_node_to_index st ! j := rs_index_to_node st ! (rs_interval_ptr st ! (rs_lambda st ! j)),
          rs_interval_ptr st ! (rs_lambda st ! j) := rs_index_to_node st ! (rs_node_to_index st ! j)]"
  "rs_node_to_index (rs_decrement j st)
     = (rs_node_to_index st)
         [rs_index_to_node st ! (rs_node_to_index st ! j) := rs_interval_ptr st ! (rs_lambda st ! j),
          rs_index_to_node st ! (rs_interval_ptr st ! (rs_lambda st ! j)) := rs_node_to_index st ! j]"
  by (simp_all add: rs_decrement_def rs_swap_def Let_def)

lemma rs_decrement_inv:
  assumes inv: "rs_inv n m st" and k: "k < n"
    and U: "rs_splitting st ! k = U_NODE" and pos: "rs_lambda st ! k \<noteq> 0"
  shows "rs_inv n m (rs_decrement k st)"
proof -
  define lam where "lam = rs_lambda st"
  define ptr where "ptr = rs_interval_ptr st"
  define cnt where "cnt = rs_interval_count st"
  define i2n where "i2n = rs_index_to_node st"
  define n2i where "n2i = rs_node_to_index st"
  define L where "L = length cnt"
  define l where "l = lam ! k"
  define l0 where "l0 = l - 1"
  define old where "old = n2i ! k"
  define new where "new = ptr ! l"
  define w where "w = i2n ! new"
  note f = rs_inv_facts[OF inv, folded lam_def ptr_def cnt_def i2n_def n2i_def L_def]
  have ll0: "l = l0 + 1" using pos by (simp add: l0_def l_def lam_def)
  have old_m: "old < m" using f(17)[OF k U] by (simp add: old_def)
  have i2n_old: "i2n ! old = k" using f(7)[OF k] by (simp add: old_def)
  have lL: "l < L" using f(11)[OF k] by (simp add: l_def)
  have l0L: "l0 < L" using lL ll0 by simp
  have in_lo: "ptr ! l \<le> old" and in_hi: "old < ptr ! l + cnt ! l"
    using f(12)[OF old_m] f(13)[OF old_m] by (simp_all add: i2n_old l_def)
  have cl: "0 < cnt ! l" using in_lo in_hi by simp
  have pl: "ptr ! l = pre_sum cnt l" using f(14)[OF lL cl] .
  have pl0: "ptr ! l = pre_sum cnt l0 + cnt ! l0" using pl pre_sum_Suc[of cnt l0] ll0 by simp
  have new_old: "new \<le> old" and new_m: "new < m" using in_lo old_m by (simp_all add: new_def)
  have mn: "m \<le> n" by (rule f(1))
  have new_n: "new < n" and old_n: "old < n" using new_m old_m mn by simp_all
  have w_n: "w < n" and n2i_w: "n2i ! w = new" using f(4)[OF new_n] f(5)[OF new_n] by (simp_all add: w_def)
  have lam_w: "lam ! w = l"
  proof -
    have "lam ! w < L" using f(11)[OF w_n] .
    moreover have "ptr ! (lam ! w) \<le> new" "new < ptr ! (lam ! w) + cnt ! (lam ! w)"
      using f(12)[OF new_m] f(13)[OF new_m] by (simp_all add: w_def)
    moreover have "ptr ! l \<le> new" "new < ptr ! l + cnt ! l" using cl by (simp_all add: new_def)
    ultimately show ?thesis using bucket_unique[of L cnt ptr "lam ! w" new l] f(14) lL by blast
  qed
  define st' where "st' = rs_decrement k st"
  define lam' where "lam' = rs_lambda st'"
  define ptr' where "ptr' = rs_interval_ptr st'"
  define cnt' where "cnt' = rs_interval_count st'"
  define i2n' where "i2n' = rs_index_to_node st'"
  define n2i' where "n2i' = rs_node_to_index st'"
  have lam'_eq: "lam' = lam[k := l0]"
    by (simp add: lam'_def st'_def rs_decrement_fields lam_def l_def l0_def)
  have cnt'_eq: "cnt' = (cnt[l := cnt ! l - 1])[l0 := cnt ! l0 + 1]"
    using ll0 by (simp add: cnt'_def st'_def rs_decrement_fields cnt_def lam_def l_def l0_def)
  have cnt'_nth: "cnt' ! a = (if a = l0 then cnt ! l0 + 1 else if a = l then cnt ! l - 1 else cnt ! a)"
    if "a < L" for a
    using that by (simp add: cnt'_eq nth_list_update L_def)
  have ptr'_eq: "ptr' = (ptr[l := ptr ! l + 1])[l0 := ptr ! l - cnt ! l0]"
  proof -
    have "ptr' = (ptr[l := ptr ! l + 1])[l0 := (ptr[l := ptr ! l + 1]) ! l - cnt' ! l0]"
      by (simp add: ptr'_def cnt'_def st'_def rs_decrement_fields ptr_def lam_def l_def l0_def)
    moreover have "(ptr[l := ptr ! l + 1]) ! l = ptr ! l + 1" using lL f(9) by (simp add: L_def)
    ultimately show ?thesis using cnt'_nth[OF l0L] by simp
  qed
  have i2n'_eq: "i2n' = i2n[old := i2n ! new, new := i2n ! old]"
    by (simp add: i2n'_def st'_def rs_decrement_fields i2n_def n2i_def old_def new_def ptr_def lam_def l_def)
  have n2i'_eq: "n2i' = n2i[i2n ! old := new, i2n ! new := old]"
    by (simp add: n2i'_def st'_def rs_decrement_fields i2n_def n2i_def old_def new_def ptr_def lam_def l_def)
  have spl': "rs_splitting st' = rs_splitting st" by (simp add: st'_def rs_decrement_fields)
  have P1: "\<forall>p < n. i2n ! p < n \<and> n2i ! (i2n ! p) = p" using f(4,5) by simp
  have P2: "\<forall>v < n. n2i ! v < n \<and> i2n ! (n2i ! v) = v" using f(6,7) by simp
  note sw = swap_perm[of i2n n n2i old new, OF f(2,3) P1 P2 old_n new_n, folded i2n'_eq n2i'_eq]
  have i2n'_nth: "i2n' ! p = (if p = new then k else if p = old then w else i2n ! p)" if "p < n" for p
    using sw(3)[OF that] by (simp add: i2n_old w_def)
  have n2i'_nth: "n2i' ! v = (if v = w then old else if v = k then new else n2i ! v)" if "v < n" for v
    using sw(4)[OF that] by (simp add: i2n_old w_def)
  have lam'_nth: "lam' ! v = (if v = k then l0 else lam ! v)" if "v < n" for v
    using that f(8) by (simp add: lam'_eq nth_list_update)
  have ptr'_nth: "ptr' ! a = (if a = l0 then ptr ! l - cnt ! l0 else if a = l then ptr ! l + 1 else ptr ! a)"
    if "a < L" for a
    using that f(9) by (simp add: ptr'_eq nth_list_update L_def)
  have len': "length cnt' = L" "length ptr' = L" "length lam' = n"
    using f(8,9) by (simp_all add: cnt'_eq ptr'_eq lam'_eq L_def)
  have ps_low: "pre_sum cnt' a = pre_sum cnt a" if "a \<le> l0" for a
    using that ll0 by (simp add: cnt'_eq pre_sum_update_above)
  have ps_mid: "pre_sum cnt' l = pre_sum cnt l + 1"
  proof -
    have "pre_sum cnt' l = pre_sum cnt' l0 + cnt' ! l0" using pre_sum_Suc[of cnt' l0] ll0 by simp
    then show ?thesis using ps_low[of l0] cnt'_nth[OF l0L] pl pl0 by simp
  qed
  have ps_high: "pre_sum cnt' a = pre_sum cnt a" if "l < a" for a
  proof -
    let ?c1 = "cnt[l := cnt ! l - 1]"
    have a1: "pre_sum ?c1 a + cnt ! l = pre_sum cnt a + (cnt ! l - 1)"
      using pre_sum_update_below[of l a cnt "cnt ! l - 1"] that lL by (simp add: L_def)
    have a2: "pre_sum cnt' a + ?c1 ! l0 = pre_sum ?c1 a + (cnt ! l0 + 1)"
      unfolding cnt'_eq using pre_sum_update_below[of l0 a ?c1 "cnt ! l0 + 1"] that l0L ll0
      by (simp add: L_def)
    have "?c1 ! l0 = cnt ! l0" using ll0 by simp
    with a1 a2 cl show ?thesis by simp
  qed
  have prev_ptr: "ptr ! l0 + cnt ! l0 = ptr ! l" if "0 < cnt ! l0"
    using f(14)[OF l0L that] pl0 by simp
  have perm': "rs_perm n st'"
    unfolding rs_perm_def using sw(1,2,5,6)
    by (simp add: i2n'_def[symmetric] n2i'_def[symmetric])
  have d': "ptr' ! (lam' ! (i2n' ! p)) \<le> p \<and> p < ptr' ! (lam' ! (i2n' ! p)) + cnt' ! (lam' ! (i2n' ! p))"
    if p: "p < m" for p
  proof -
    have pn: "p < n" using p mn by simp
    consider (at_new) "p = new" | (at_old) "p = old" "p \<noteq> new" | (other) "p \<noteq> new" "p \<noteq> old" by blast
    then show ?thesis
    proof cases
      case at_new
      then have "i2n' ! p = k" using i2n'_nth[OF pn] by simp
      then have "lam' ! (i2n' ! p) = l0" using lam'_nth[OF k] by simp
      then show ?thesis using at_new ptr'_nth[OF l0L] cnt'_nth[OF l0L] pl0 by (simp add: new_def)
    next
      case at_old
      then have v: "i2n' ! p = w" using i2n'_nth[OF pn] by simp
      have "w \<noteq> k" using at_old n2i_w by (auto simp: old_def)
      then have "lam' ! (i2n' ! p) = l" using v lam'_nth[OF w_n] lam_w by simp
      then show ?thesis using at_old ptr'_nth[OF lL] cnt'_nth[OF lL] in_lo in_hi new_old ll0
        by (simp add: new_def)
    next
      case other
      then have v: "i2n' ! p = i2n ! p" using i2n'_nth[OF pn] by simp
      have vn: "i2n ! p < n" using f(4)[OF pn] .
      have "i2n ! p \<noteq> k" using other f(5)[OF pn] by (auto simp: old_def)
      then have lv: "lam' ! (i2n' ! p) = lam ! (i2n ! p)" using v lam'_nth[OF vn] by simp
      let ?a = "lam ! (i2n ! p)"
      have aL: "?a < L" using f(11)[OF vn] .
      have lo: "ptr ! ?a \<le> p" and hi: "p < ptr ! ?a + cnt ! ?a" using f(12)[OF p] f(13)[OF p] by simp_all
      consider (same) "?a = l" | (pred) "?a = l0" | (far) "?a \<noteq> l" "?a \<noteq> l0" by blast
      then show ?thesis
      proof cases
        case same
        then show ?thesis unfolding lv using lo hi other ll0 ptr'_nth[OF lL] cnt'_nth[OF lL]
          by (simp add: new_def)
      next
        case pred
        have "0 < cnt ! l0" using lo hi pred by simp
        from prev_ptr[OF this] show ?thesis
          unfolding lv using lo hi pred ptr'_nth[OF l0L] cnt'_nth[OF l0L] by simp
      next
        case far
        then show ?thesis unfolding lv using lo hi ptr'_nth[OF aL] cnt'_nth[OF aL] by simp
      qed
    qed
  qed
  have e': "ptr' ! a = pre_sum cnt' a" if a: "a < L" "0 < cnt' ! a" for a
  proof -
    consider (low) "a < l0" | (pred) "a = l0" | (same) "a = l" | (high) "l < a" using ll0 by linarith
    then show ?thesis
    proof cases
      case low
      then show ?thesis using a f(14)[OF a(1)] ptr'_nth[OF a(1)] cnt'_nth[OF a(1)] ps_low[of a] ll0 by simp
    next
      case pred
      then show ?thesis using ptr'_nth[OF l0L] ps_low[of l0] pl0 by simp
    next
      case same
      then show ?thesis using ptr'_nth[OF lL] ps_mid pl ll0 by simp
    next
      case high
      then show ?thesis using a f(14)[OF a(1)] ptr'_nth[OF a(1)] cnt'_nth[OF a(1)] ps_high[OF high] ll0
        by simp
    qed
  qed
  have f': "pre_sum cnt' L = m" using ps_high[OF lL] f(15) by simp
  have lamL': "lam' ! v < L" if "v < n" for v
    using lam'_nth[OF that] f(11)[OF that] l0L by simp
  have buckets': "rs_buckets n m st'"
    unfolding rs_buckets_def
    using len' f(10) lamL' d' e' f'
    by (simp add: lam'_def[symmetric] ptr'_def[symmetric] cnt'_def[symmetric] i2n'_def[symmetric] L_def[symmetric])
  have g': "n2i' ! v < m" if "v < n" "rs_splitting st' ! v = U_NODE" for v
    using n2i'_nth[OF that(1)] f(17)[OF that(1)] that(2) spl' old_m new_m by (simp add: n2i_def)
  have labels': "rs_labels n m st'"
    unfolding rs_labels_def using g' f(16) spl' by (simp add: n2i'_def[symmetric])
  show ?thesis unfolding st'_def[symmetric] rs_inv_def using mn perm' buckets' labels' by simp
qed

subsection \<open>The three inner loops\<close>

lemma rs_inv_relabel:
  assumes "rs_inv n m st" "c \<noteq> U_NODE"
  shows "rs_inv n m (st\<lparr> rs_splitting := (rs_splitting st)[j := c] \<rparr>)"
  using assms unfolding rs_inv_def rs_perm_def rs_buckets_def rs_labels_def
  by (simp add: nth_list_update_total)

lemma rs_raise_inv:
  assumes "rs_inv n m st" "Sj ! kk < n"
  shows "rs_inv n m (rs_raise n Sj kk st) \<and> rs_splitting (rs_raise n Sj kk st) = rs_splitting st"
  using assms rs_increment_inv[of n m st "Sj ! kk"]
  by (simp add: rs_raise_def Let_def rs_increment_fields not_le)

lemma rs_lower_inv:
  assumes "rs_inv n m st" "Sj ! jj < n"
  shows "rs_inv n m (rs_lower Sj jj st) \<and> rs_splitting (rs_lower Sj jj st) = rs_splitting st"
  using assms rs_decrement_inv[of n m st "Sj ! jj"]
  by (simp add: rs_lower_def Let_def rs_decrement_fields)

lemma rs_raise_row:
  assumes inv: "rs_inv n m st" and S: "csr_wf n Sp Sj" and j: "j < n"
  shows "rs_inv n m (fold (rs_raise n Sj) [Sp ! j..<Sp ! (j + 1)] st)
         \<and> rs_splitting (fold (rs_raise n Sj) [Sp ! j..<Sp ! (j + 1)] st) = rs_splitting st"
proof (rule fold_invariant[where Q = "\<lambda>kk. Sj ! kk < n"
                              and P = "\<lambda>s. rs_inv n m s \<and> rs_splitting s = rs_splitting st"])
  show "Sj ! kk < n" if "kk \<in> set [Sp ! j..<Sp ! (j + 1)]" for kk
    using row_in_range[OF S j that] .
  show "rs_inv n m st \<and> rs_splitting st = rs_splitting st" using inv by simp
  show "rs_inv n m (rs_raise n Sj kk s) \<and> rs_splitting (rs_raise n Sj kk s) = rs_splitting st"
    if "Sj ! kk < n" "rs_inv n m s \<and> rs_splitting s = rs_splitting st" for kk s
    using rs_raise_inv[of n m s Sj kk] that by simp
qed

lemma rs_lower_row:
  assumes inv: "rs_inv n m st" and S: "csr_wf n Sp Sj" and j: "j < n"
  shows "rs_inv n m (fold (rs_lower Sj) [Sp ! j..<Sp ! (j + 1)] st)
         \<and> rs_splitting (fold (rs_lower Sj) [Sp ! j..<Sp ! (j + 1)] st) = rs_splitting st"
proof (rule fold_invariant[where Q = "\<lambda>kk. Sj ! kk < n"
                              and P = "\<lambda>s. rs_inv n m s \<and> rs_splitting s = rs_splitting st"])
  show "Sj ! kk < n" if "kk \<in> set [Sp ! j..<Sp ! (j + 1)]" for kk
    using row_in_range[OF S j that] .
  show "rs_inv n m st \<and> rs_splitting st = rs_splitting st" using inv by simp
  show "rs_inv n m (rs_lower Sj kk s) \<and> rs_splitting (rs_lower Sj kk s) = rs_splitting st"
    if "Sj ! kk < n" "rs_inv n m s \<and> rs_splitting s = rs_splitting st" for kk s
    using rs_lower_inv[of n m s Sj kk] that by simp
qed

lemma rs_make_f_inv:
  assumes inv: "rs_inv n m st" and S: "csr_wf n Sp Sj" and j: "Tj ! jj < n"
  shows "rs_inv n m (rs_make_f n Sp Sj Tj jj st)"
    and "rs_splitting (rs_make_f n Sp Sj Tj jj st)
         = (if rs_splitting st ! (Tj ! jj) = PRE_F_NODE then (rs_splitting st)[Tj ! jj := F_NODE]
            else rs_splitting st)"
proof -
  have "rs_inv n m (st\<lparr> rs_splitting := (rs_splitting st)[Tj ! jj := F_NODE] \<rparr>)"
    by (rule rs_inv_relabel[OF inv]) (simp add: F_NODE_def U_NODE_def)
  from rs_raise_row[OF this S j]
  show "rs_inv n m (rs_make_f n Sp Sj Tj jj st)"
    and "rs_splitting (rs_make_f n Sp Sj Tj jj st)
         = (if rs_splitting st ! (Tj ! jj) = PRE_F_NODE then (rs_splitting st)[Tj ! jj := F_NODE]
            else rs_splitting st)"
    using inv by (simp_all add: rs_make_f_def Let_def)
qed

lemma rs_pre_f_row:
  assumes inv: "rs_inv n m st" and pend: "rs_pending n {} st"
  shows "rs_inv n m (fold (rs_pre_f Tj) xs st) \<and> rs_pending n ((!) Tj ` set xs) (fold (rs_pre_f Tj) xs st)"
proof (rule fold_invariant[where Q = "\<lambda>jj. jj \<in> set xs"
                              and P = "\<lambda>s. rs_inv n m s \<and> rs_pending n ((!) Tj ` set xs) s"])
  show "jj \<in> set xs" if "jj \<in> set xs" for jj using that .
  show "rs_inv n m st \<and> rs_pending n ((!) Tj ` set xs) st"
    using inv pend unfolding rs_pending_def by blast
  show "rs_inv n m (rs_pre_f Tj jj s) \<and> rs_pending n ((!) Tj ` set xs) (rs_pre_f Tj jj s)"
    if jj: "jj \<in> set xs" and s: "rs_inv n m s \<and> rs_pending n ((!) Tj ` set xs) s" for jj s
  proof -
    have a: "rs_inv n m (s\<lparr> rs_splitting := (rs_splitting s)[Tj ! jj := PRE_F_NODE] \<rparr>)"
      by (rule rs_inv_relabel) (use s in \<open>simp_all add: PRE_F_NODE_def U_NODE_def\<close>)
    have b: "rs_pending n ((!) Tj ` set xs) (s\<lparr> rs_splitting := (rs_splitting s)[Tj ! jj := PRE_F_NODE] \<rparr>)"
      using s jj unfolding rs_pending_def by (auto simp: nth_list_update_total)
    show ?thesis using a b s by (simp add: rs_pre_f_def Let_def)
  qed
qed

lemma rs_make_f_row:
  assumes "rs_inv n m st" "rs_pending n ((!) Tj ` set xs) st" "csr_wf n Sp Sj" "\<forall>jj \<in> set xs. Tj ! jj < n"
  shows "rs_inv n m (fold (rs_make_f n Sp Sj Tj) xs st)
         \<and> rs_pending n {} (fold (rs_make_f n Sp Sj Tj) xs st)"
  using assms
proof (induction xs arbitrary: st)
  case Nil
  then show ?case by simp
next
  case (Cons jj xs)
  let ?s = "rs_make_f n Sp Sj Tj jj st"
  have j: "Tj ! jj < n" using Cons.prems(4) by simp
  note mk = rs_make_f_inv[OF Cons.prems(1) Cons.prems(3) j]
  have len: "length (rs_splitting st) = n" using rs_inv_facts(16)[OF Cons.prems(1)] .
  have "rs_pending n ((!) Tj ` set xs) ?s"
    unfolding rs_pending_def
  proof (intro allI impI)
    fix v assume v: "v < n"
    from Cons.prems(2) v have old:
      "rs_splitting st ! v = F_NODE \<or> rs_splitting st ! v = C_NODE \<or> rs_splitting st ! v = U_NODE
       \<or> (rs_splitting st ! v = PRE_F_NODE \<and> v \<in> (!) Tj ` set (jj # xs))"
      unfolding rs_pending_def by blast
    show "rs_splitting ?s ! v = F_NODE \<or> rs_splitting ?s ! v = C_NODE \<or> rs_splitting ?s ! v = U_NODE
          \<or> (rs_splitting ?s ! v = PRE_F_NODE \<and> v \<in> (!) Tj ` set xs)"
    proof (cases "v = Tj ! jj")
      case True
      then show ?thesis using old mk(2) len v by (auto simp: nth_list_update_total)
    next
      case False
      then have "rs_splitting ?s ! v = rs_splitting st ! v" using mk(2) by (simp add: nth_list_update_total)
      then show ?thesis using old False by auto
    qed
  qed
  from Cons.IH[OF mk(1) this Cons.prems(3)] Cons.prems(4) show ?case by simp
qed

subsection \<open>One iteration of the main loop\<close>

lemma rs_search_max_range:
  "snd (rs_search_max st l i t) = t
   \<or> (rs_interval_ptr st ! l \<le> snd (rs_search_max st l i t)
      \<and> snd (rs_search_max st l i t) < rs_interval_ptr st ! l + rs_interval_count st ! l)"
  unfolding rs_search_max_def
  by (rule fold_invariant[where Q = "\<lambda>j. rs_interval_ptr st ! l \<le> j
                                         \<and> j < rs_interval_ptr st ! l + rs_interval_count st ! l"])
     (auto split: prod.splits)

lemma rs_top_removed:
  assumes inv: "rs_inv n (Suc m) st"
  defines "l \<equiv> rs_lambda st ! (rs_index_to_node st ! m)"
  defines "st1 \<equiv> st\<lparr> rs_interval_count := (rs_interval_count st)[l := rs_interval_count st ! l - 1] \<rparr>"
  shows "rs_buckets n m st1"
    and "rs_interval_ptr st ! l + rs_interval_count st1 ! l = m"
    and "l < length (rs_interval_count st)"
    and "0 < rs_interval_count st ! l"
proof -
  define lam where "lam = rs_lambda st"
  define ptr where "ptr = rs_interval_ptr st"
  define cnt where "cnt = rs_interval_count st"
  define i2n where "i2n = rs_index_to_node st"
  define L where "L = length cnt"
  define cnt1 where "cnt1 = cnt[l := cnt ! l - 1]"
  note f = rs_inv_facts[OF inv, folded lam_def ptr_def cnt_def i2n_def L_def]
  have l_eq: "l = lam ! (i2n ! m)" by (simp add: l_def lam_def i2n_def)
  have mn: "m < n" using f(1) by simp
  have lL: "l < L" using f(11)[OF f(4)[OF mn]] by (simp add: l_eq)
  have lo: "ptr ! l \<le> m" and hi: "m < ptr ! l + cnt ! l"
    using f(12)[of m] f(13)[of m] by (simp_all add: l_eq)
  have cl: "0 < cnt ! l" using lo hi by simp
  have pl: "ptr ! l = pre_sum cnt l" using f(14)[OF lL cl] .
  have "ptr ! l + cnt ! l \<le> Suc m" using pre_sum_Suc_le[OF lL, of cnt] f(15) pl by simp
  with hi have top: "ptr ! l + cnt ! l = Suc m" by simp
  have full: "pre_sum cnt (Suc l) = pre_sum cnt L" using top pl f(15) by (simp add: pre_sum_Suc)
  have above: "cnt ! a = 0" if "l < a" "a < L" for a
    using pre_sum_full_zero[OF full that] .
  have cnt1_nth: "cnt1 ! a = (if a = l then cnt ! l - 1 else cnt ! a)" if "a < L" for a
    using that by (simp add: cnt1_def L_def nth_list_update)
  have ps_low: "pre_sum cnt1 a = pre_sum cnt a" if "a \<le> l" for a
    using that by (simp add: cnt1_def pre_sum_update_above)
  have ps_full: "pre_sum cnt1 L = m"
    using pre_sum_update_below[of l L cnt "cnt ! l - 1"] lL f(15) cl by (simp add: cnt1_def L_def)
  have st1: "rs_lambda st1 = lam" "rs_interval_ptr st1 = ptr" "rs_interval_count st1 = cnt1"
    "rs_index_to_node st1 = i2n"
    by (simp_all add: st1_def lam_def ptr_def cnt_def cnt1_def i2n_def)
  have len1: "length cnt1 = L" by (simp add: cnt1_def L_def)
  have d: "ptr ! (lam ! (i2n ! p)) \<le> p \<and> p < ptr ! (lam ! (i2n ! p)) + cnt1 ! (lam ! (i2n ! p))"
    if p: "p < m" for p
  proof -
    have pS: "p < Suc m" using p by simp
    have aL: "lam ! (i2n ! p) < L" using f(11)[OF f(4)] p mn by simp
    show ?thesis
      using f(12)[OF pS] f(13)[OF pS] cnt1_nth[OF aL] top p by (cases "lam ! (i2n ! p) = l") simp_all
  qed
  have e: "ptr ! a = pre_sum cnt1 a" if a: "a < L" "0 < cnt1 ! a" for a
  proof (cases "a \<le> l")
    case True
    have "0 < cnt ! a" using a cnt1_nth[OF a(1)] by (simp split: if_splits)
    then show ?thesis using f(14)[OF a(1)] ps_low[OF True] by simp
  next
    case False
    then have "cnt ! a = 0" using above a(1) by simp
    then show ?thesis using a cnt1_nth[OF a(1)] False by simp
  qed
  show "rs_buckets n m st1"
    unfolding rs_buckets_def st1 len1 using f(8,9,10,11) d e ps_full len1
    by (simp add: L_def[symmetric])
  show "rs_interval_ptr st ! l + rs_interval_count st1 ! l = m"
    using top cnt1_nth[OF lL] cl by (simp add: st1 ptr_def[symmetric])
  show "l < length (rs_interval_count st)" using lL by (simp add: L_def cnt_def)
  show "0 < rs_interval_count st ! l" using cl by (simp add: cnt_def)
qed

lemma rs_buckets_facts:
  assumes "rs_buckets n m st"
  shows "length (rs_lambda st) = n"
    and "length (rs_interval_ptr st) = length (rs_interval_count st)"
    and "n + 1 \<le> length (rs_interval_count st)"
    and "\<And>v. v < n \<Longrightarrow> rs_lambda st ! v < length (rs_interval_count st)"
    and "\<And>p. p < m \<Longrightarrow> rs_interval_ptr st ! (rs_lambda st ! (rs_index_to_node st ! p)) \<le> p"
    and "\<And>p. p < m \<Longrightarrow> p < rs_interval_ptr st ! (rs_lambda st ! (rs_index_to_node st ! p))
                       + rs_interval_count st ! (rs_lambda st ! (rs_index_to_node st ! p))"
    and "\<forall>l < length (rs_interval_count st). 0 < rs_interval_count st ! l
            \<longrightarrow> rs_interval_ptr st ! l = pre_sum (rs_interval_count st) l"
    and "pre_sum (rs_interval_count st) (length (rs_interval_count st)) = m"
  using assms unfolding rs_buckets_def by blast+

lemma rs_swap_fields:
  "rs_lambda (rs_swap a b st) = rs_lambda st"
  "rs_interval_ptr (rs_swap a b st) = rs_interval_ptr st"
  "rs_interval_count (rs_swap a b st) = rs_interval_count st"
  "rs_splitting (rs_swap a b st) = rs_splitting st"
  "rs_index_to_node (rs_swap a b st)
     = (rs_index_to_node st)[a := rs_index_to_node st ! b, b := rs_index_to_node st ! a]"
  "rs_node_to_index (rs_swap a b st)
     = (rs_node_to_index st)[rs_index_to_node st ! a := b, rs_index_to_node st ! b := a]"
  by (simp_all add: rs_swap_def Let_def)

lemma rs_pending_cong:
  "rs_splitting st' = rs_splitting st \<Longrightarrow> rs_pending n X st' = rs_pending n X st"
  by (simp add: rs_pending_def)

lemma rs_step_inv:
  assumes inv: "rs_inv n (Suc m) st" and pend: "rs_pending n {} st"
    and S: "csr_wf n Sp Sj" and T: "csr_wf n Tp Tj"
  shows "rs_inv n m (rs_step n Sp Sj Tp Tj m st) \<and> rs_pending n {} (rs_step n Sp Sj Tp Tj m st)"
proof -
  define i where "i = rs_index_to_node st ! m"
  define l where "l = rs_lambda st ! i"
  define st1 where
    "st1 = st\<lparr> rs_interval_count := (rs_interval_count st)[l := rs_interval_count st ! l - 1] \<rparr>"
  note f = rs_inv_facts[OF inv]
  note tr = rs_top_removed[OF inv, folded i_def, folded l_def, folded st1_def]
  note b1 = rs_buckets_facts[OF tr(1)]
  have mn: "m < n" and mn': "m \<le> n" using f(1) by simp_all
  have i_n: "i < n" using f(4)[OF mn] by (simp add: i_def)
  have st1: "rs_lambda st1 = rs_lambda st" "rs_interval_ptr st1 = rs_interval_ptr st"
    "rs_index_to_node st1 = rs_index_to_node st" "rs_node_to_index st1 = rs_node_to_index st"
    "rs_splitting st1 = rs_splitting st"
    by (simp_all add: st1_def)
  have perm1: "rs_perm n st1"
    using inv unfolding rs_inv_def rs_perm_def st1 by blast
  have pend1: "rs_pending n {} st1" using pend by (simp add: rs_pending_cong[OF st1(5)])
  have at_top: "v = i" if "v < n" "rs_node_to_index st ! v = m" for v
    using f(7)[OF that(1)] that(2) by (simp add: i_def)
  show ?thesis
  proof (cases "rs_splitting st ! i = F_NODE")
    case True
    have "rs_node_to_index st1 ! v < m" if v: "v < n" "rs_splitting st1 ! v = U_NODE" for v
    proof -
      have "v \<noteq> i" using v(2) True by (auto simp: st1 F_NODE_def U_NODE_def)
      then have "rs_node_to_index st ! v \<noteq> m" using at_top[OF v(1)] by blast
      moreover have "rs_node_to_index st ! v < Suc m" using f(17)[OF v(1)] v(2) by (simp add: st1)
      ultimately show ?thesis by (simp add: st1)
    qed
    then have "rs_labels n m st1" unfolding rs_labels_def using f(16) by (simp add: st1)
    then have "rs_inv n m st1" unfolding rs_inv_def using mn' perm1 tr(1) by simp
    moreover have "rs_step n Sp Sj Tp Tj m st = st1"
      using True by (simp add: rs_step_def Let_def i_def l_def st1_def)
    ultimately show ?thesis using pend1 by simp
  next
    case False
    define i2n where "i2n = rs_index_to_node st"
    define n2i where "n2i = rs_node_to_index st"
    define lam where "lam = rs_lambda st"
    define ptr where "ptr = rs_interval_ptr st"
    define cnt1 where "cnt1 = rs_interval_count st1"
    define mx where "mx = snd (rs_search_max st1 l (rs_index_to_node st1 ! m) m)"
    define st2 where "st2 = rs_swap m mx st1"
    define i' where "i' = rs_index_to_node st2 ! m"
    define st3 where "st3 = st2\<lparr> rs_splitting := (rs_splitting st2)[i' := C_NODE] \<rparr>"
    define st4 where "st4 = fold (rs_pre_f Tj) [Tp ! i'..<Tp ! (i' + 1)] st3"
    define st5 where "st5 = fold (rs_make_f n Sp Sj Tj) [Tp ! i'..<Tp ! (i' + 1)] st4"
    define st6 where "st6 = fold (rs_lower Sj) [Sp ! i'..<Sp ! (i' + 1)] st5"
    have step: "rs_step n Sp Sj Tp Tj m st = st6"
      using False
      unfolding rs_step_def rs_promote_def Let_def st6_def st5_def st4_def st3_def i'_def st2_def
        mx_def st1_def l_def i_def
      by simp
    have top_eq: "ptr ! l + cnt1 ! l = m" using tr(2) by (simp add: ptr_def cnt1_def)
    have rng: "mx = m \<or> (ptr ! l \<le> mx \<and> mx < m)"
      using rs_search_max_range[of st1 l "rs_index_to_node st1 ! m" m] top_eq
      by (auto simp: mx_def st1 ptr_def cnt1_def)
    have mx_n: "mx < n" using rng mn by auto
    have lam_i: "lam ! i = l" by (simp add: l_def lam_def)
    have L1: "length (rs_interval_count st1) = length (rs_interval_count st)" by (simp add: st1_def)
    have lam_mx: "lam ! (i2n ! mx) = l"
    proof (cases "mx = m")
      case True
      then show ?thesis using lam_i by (simp add: i_def i2n_def)
    next
      case False
      then have lo: "ptr ! l \<le> mx" and hi: "mx < m" using rng by simp_all
      have e1: "\<forall>a < length cnt1. 0 < cnt1 ! a \<longrightarrow> ptr ! a = pre_sum cnt1 a"
        using b1(7) by (simp add: cnt1_def ptr_def st1)
      have a1: "lam ! (i2n ! mx) < length cnt1"
        using b1(4)[OF f(4)[OF mx_n]] by (simp add: st1 lam_def i2n_def cnt1_def)
      have a2: "ptr ! (lam ! (i2n ! mx)) \<le> mx"
        and a3: "mx < ptr ! (lam ! (i2n ! mx)) + cnt1 ! (lam ! (i2n ! mx))"
        using b1(5)[OF hi] b1(6)[OF hi] by (simp_all add: st1 lam_def i2n_def ptr_def cnt1_def)
      have a4: "l < length cnt1" using tr(3) L1 by (simp add: cnt1_def)
      have a5: "mx < ptr ! l + cnt1 ! l" using hi top_eq by simp
      show ?thesis by (rule bucket_unique[OF e1 a1 a2 a3 a4 lo a5])
    qed
    have P1: "\<forall>p < n. i2n ! p < n \<and> n2i ! (i2n ! p) = p" using f(4,5) by (simp add: i2n_def n2i_def)
    have P2: "\<forall>v < n. n2i ! v < n \<and> i2n ! (n2i ! v) = v" using f(6,7) by (simp add: i2n_def n2i_def)
    have st2: "rs_lambda st2 = lam" "rs_interval_ptr st2 = ptr" "rs_interval_count st2 = cnt1"
      "rs_splitting st2 = rs_splitting st"
      "rs_index_to_node st2 = i2n[m := i2n ! mx, mx := i2n ! m]"
      "rs_node_to_index st2 = n2i[i2n ! m := mx, i2n ! mx := m]"
      by (simp_all add: st2_def rs_swap_fields st1 lam_def ptr_def cnt1_def i2n_def n2i_def)
    note sw = swap_perm[of i2n n n2i m mx, OF f(2)[folded i2n_def] f(3)[folded n2i_def] P1 P2 mn mx_n,
        folded st2(5) st2(6)]
    have i'_eq: "i' = i2n ! mx" using sw(3)[OF mn] by (simp add: i'_def)
    have i'_n: "i' < n" using P1 mx_n by (simp add: i'_eq)
    have st3: "rs_lambda st3 = lam" "rs_interval_ptr st3 = ptr" "rs_interval_count st3 = cnt1"
      "rs_splitting st3 = (rs_splitting st)[i' := C_NODE]"
      "rs_index_to_node st3 = rs_index_to_node st2"
      "rs_node_to_index st3 = rs_node_to_index st2"
      by (simp_all add: st3_def st2(1,2,3,4))
    have perm3: "rs_perm n st3"
      unfolding rs_perm_def st3 using sw(1,2,5,6) by simp
    have d3: "ptr ! (lam ! (rs_index_to_node st2 ! p)) \<le> p
              \<and> p < ptr ! (lam ! (rs_index_to_node st2 ! p)) + cnt1 ! (lam ! (rs_index_to_node st2 ! p))"
      if p: "p < m" for p
    proof (cases "p = mx")
      case True
      then have "rs_index_to_node st2 ! p = i2n ! m" using sw(3)[of p] p mn by simp
      then have "lam ! (rs_index_to_node st2 ! p) = l" using lam_i by (simp add: i_def i2n_def)
      then show ?thesis using rng True p top_eq by simp
    next
      case False
      then have "rs_index_to_node st2 ! p = i2n ! p" using sw(3)[of p] p mn by simp
      then show ?thesis using b1(5)[OF p] b1(6)[OF p]
        by (simp add: st1 lam_def i2n_def ptr_def cnt1_def)
    qed
    have buckets3: "rs_buckets n m st3"
      unfolding rs_buckets_def st3
      using b1(1,2,3,4,7,8) d3 by (simp add: st1 lam_def ptr_def cnt1_def)
    have lab3: "rs_node_to_index st2 ! v < m"
      if v: "v < n" "(rs_splitting st)[i' := C_NODE] ! v = U_NODE" for v
    proof -
      have ne: "v \<noteq> i'" using v f(16) i'_n by (auto simp: C_NODE_def U_NODE_def)
      then have U: "rs_splitting st ! v = U_NODE" using v(2) by simp
      have pos: "rs_node_to_index st2 ! v = (if v = i2n ! m then mx else n2i ! v)"
        using sw(4)[OF v(1)] ne by (simp add: i'_eq)
      show ?thesis
      proof (cases "v = i2n ! m")
        case True
        then have "mx \<noteq> m" using ne by (auto simp: i'_eq)
        then show ?thesis using pos True rng by simp
      next
        case False
        then have "n2i ! v \<noteq> m" using at_top[OF v(1)] by (auto simp: n2i_def i_def i2n_def)
        moreover have "n2i ! v < Suc m" using f(17)[OF v(1) U] by (simp add: n2i_def)
        ultimately show ?thesis using pos False by simp
      qed
    qed
    have labels3: "rs_labels n m st3"
      unfolding rs_labels_def st3 using lab3 f(16) by simp
    have inv3: "rs_inv n m st3" unfolding rs_inv_def using mn' perm3 buckets3 labels3 by simp
    have pend3: "rs_pending n {} st3"
      using pend unfolding rs_pending_def st3 by (auto simp: nth_list_update_total)
    have rowT: "\<forall>jj \<in> set [Tp ! i'..<Tp ! (i' + 1)]. Tj ! jj < n"
      using row_in_range[OF T i'_n] by blast
    from rs_pre_f_row[OF inv3 pend3, of Tj "[Tp ! i'..<Tp ! (i' + 1)]"]
    have inv4: "rs_inv n m st4" and pend4: "rs_pending n ((!) Tj ` set [Tp ! i'..<Tp ! (i' + 1)]) st4"
      by (simp_all add: st4_def)
    from rs_make_f_row[OF inv4 pend4 S rowT]
    have inv5: "rs_inv n m st5" and pend5: "rs_pending n {} st5"
      by (simp_all add: st5_def)
    from rs_lower_row[OF inv5 S i'_n]
    have inv6: "rs_inv n m st6" and spl6: "rs_splitting st6 = rs_splitting st5"
      by (simp_all add: st6_def)
    show ?thesis unfolding step using inv6 pend5 by (simp add: rs_pending_cong[OF spl6])
  qed
qed

lemma rs_loop_inv:
  assumes "rs_inv n m st" "rs_pending n {} st" "csr_wf n Sp Sj" "csr_wf n Tp Tj"
  shows "rs_inv n 0 (fold (rs_step n Sp Sj Tp Tj) (rev [0..<m]) st)
         \<and> rs_pending n {} (fold (rs_step n Sp Sj Tp Tj) (rev [0..<m]) st)"
  using assms
proof (induction m arbitrary: st)
  case 0
  then show ?case by simp
next
  case (Suc m)
  from rs_step_inv[OF Suc.prems] Suc.IH[of "rs_step n Sp Sj Tp Tj m st"] Suc.prems(3,4)
  show ?case by simp
qed

lemma rs_final_labels:
  assumes "rs_inv n 0 st" "rs_pending n {} st" "v < n"
  shows "rs_splitting st ! v = F_NODE \<or> rs_splitting st ! v = C_NODE"
  using assms rs_inv_facts(17)[OF assms(1), of v] unfolding rs_pending_def by auto

subsection \<open>The counting sort that fills the buckets\<close>

lemma occ_Suc: "occ lam l (Suc k) = occ lam l k + (if lam ! k = l then 1 else 0)"
  by (simp add: occ_def)

lemma occ_mono: "a \<le> b \<Longrightarrow> occ lam l a \<le> occ lam l b"
  by (induction b) (auto simp: occ_Suc le_Suc_eq)

lemma occ_total:
  assumes "\<forall>i < k. lam ! i < L"
  shows "(\<Sum>l < L. occ lam l k) = k"
  using assms
proof (induction k)
  case 0
  then show ?case by (simp add: occ_def)
next
  case (Suc k)
  have "(\<Sum>l < L. occ lam l (Suc k)) = (\<Sum>l < L. occ lam l k) + (\<Sum>l < L. if lam ! k = l then 1 else 0)"
    by (simp add: occ_Suc sum.distrib)
  also have "(\<Sum>l < L. if lam ! k = l then 1 else 0) = (1::nat)"
    using Suc.prems by (simp add: sum.delta')
  finally show ?case using Suc by simp
qed

lemma bucket_exists:
  "p < pre_sum cnt L \<Longrightarrow> \<exists>l < L. pre_sum cnt l \<le> p \<and> p < pre_sum cnt l + cnt ! l"
proof (induction L)
  case 0
  then show ?case by (simp add: pre_sum_def)
next
  case (Suc L)
  show ?case
  proof (cases "p < pre_sum cnt L")
    case True
    from Suc.IH[OF this] show ?thesis using less_Suc_eq by auto
  next
    case False
    then show ?thesis using Suc.prems by (intro exI[of _ L]) (simp add: pre_sum_Suc)
  qed
qed

lemma rs_priorities_length:
  "length (fold (\<lambda>i lam. lam[i := g i]) xs a) = length a"
  by (induction xs arbitrary: a) simp_all

lemma rs_lambda_max_bound:
  shows "n + 1 \<le> rs_lambda_max n lam" and "i < n \<Longrightarrow> lam ! i < rs_lambda_max n lam"
proof -
  let ?M = "\<lambda>k. fold (\<lambda>i lambda_max. if lam ! i > lambda_max then lam ! i else lambda_max) [0..<k] (0::nat)"
  have M: "\<forall>i < k. lam ! i \<le> ?M k" for k
    by (induction k) (auto simp: less_Suc_eq)
  show "n + 1 \<le> rs_lambda_max n lam" by (simp add: rs_lambda_max_def Let_def)
  show "lam ! i < rs_lambda_max n lam" if "i < n"
  proof -
    have "lam ! i \<le> ?M n" using M that by blast
    then show ?thesis unfolding rs_lambda_max_def Let_def by (cases "?M n = 0") auto
  qed
qed

lemma rs_count_occ:
  assumes "\<forall>i < k. lam ! i < L"
  shows "length (fold (\<lambda>i c. c[lam ! i := c ! (lam ! i) + 1]) [0..<k] (replicate L (0::nat))) = L
         \<and> (\<forall>l < L. fold (\<lambda>i c. c[lam ! i := c ! (lam ! i) + 1]) [0..<k] (replicate L 0) ! l = occ lam l k)"
  using assms
proof (induction k)
  case 0
  then show ?case by (simp add: occ_def)
next
  case (Suc k)
  define c where "c = fold (\<lambda>i c. c[lam ! i := c ! (lam ! i) + 1]) [0..<k] (replicate L (0::nat))"
  have ih: "length c = L" "\<And>l. l < L \<Longrightarrow> c ! l = occ lam l k"
    using Suc unfolding c_def by simp_all
  have step: "fold (\<lambda>i c. c[lam ! i := c ! (lam ! i) + 1]) [0..<Suc k] (replicate L 0)
              = c[lam ! k := c ! (lam ! k) + 1]"
    unfolding c_def by simp
  show ?case unfolding step using ih by (simp add: occ_Suc nth_list_update)
qed

lemma rs_cumsum_fold:
  assumes "k \<le> length cnt0" "length ptr0 = length cnt0"
  shows "case fold rs_cumsum [0..<k] (ptr0, cnt0, 0) of
           (ptr, cnt, cs) \<Rightarrow>
             length ptr = length cnt0 \<and> length cnt = length cnt0 \<and> cs = pre_sum cnt0 k
             \<and> (\<forall>l < k. ptr ! l = pre_sum cnt0 l \<and> cnt ! l = 0)
             \<and> (\<forall>l. k \<le> l \<longrightarrow> cnt ! l = cnt0 ! l)"
  using assms
proof (induction k)
  case 0
  then show ?case by (simp add: pre_sum_def)
next
  case (Suc k)
  obtain ptr cnt cs where r: "fold rs_cumsum [0..<k] (ptr0, cnt0, 0) = (ptr, cnt, cs)"
    by (cases "fold rs_cumsum [0..<k] (ptr0, cnt0, 0)")
  from Suc.IH Suc.prems r
  have ih: "length ptr = length cnt0" "length cnt = length cnt0" "cs = pre_sum cnt0 k"
    "\<forall>l < k. ptr ! l = pre_sum cnt0 l \<and> cnt ! l = 0" "\<forall>l. k \<le> l \<longrightarrow> cnt ! l = cnt0 ! l"
    by simp_all
  have k: "k < length cnt0" using Suc.prems by simp
  have step: "fold rs_cumsum [0..<Suc k] (ptr0, cnt0, 0) = (ptr[k := cs], cnt[k := 0], cs + cnt ! k)"
    by (simp add: r rs_cumsum_def)
  show ?case
    unfolding step using ih k by (auto simp: pre_sum_Suc nth_list_update less_Suc_eq)
qed

lemma rs_place_fields:
  "rs_lambda (rs_place lam i st) = rs_lambda st"
  "rs_interval_ptr (rs_place lam i st) = rs_interval_ptr st"
  "rs_splitting (rs_place lam i st) = rs_splitting st"
  "rs_interval_count (rs_place lam i st)
     = (rs_interval_count st)[lam ! i := rs_interval_count st ! (lam ! i) + 1]"
  "rs_index_to_node (rs_place lam i st)
     = (rs_index_to_node st)[rs_interval_ptr st ! (lam ! i) + rs_interval_count st ! (lam ! i) := i]"
  "rs_node_to_index (rs_place lam i st)
     = (rs_node_to_index st)[i := rs_interval_ptr st ! (lam ! i) + rs_interval_count st ! (lam ! i)]"
  by (simp_all add: rs_place_def Let_def)

lemma rs_place_step:
  assumes pl: "rs_placed n lam k st" and k: "k < n"
    and lamL: "\<forall>i < n. lam ! i < L" and len: "length (rs_interval_count st) = L"
    and c0: "\<forall>l < L. count0 ! l = occ lam l n"
    and ptr0: "\<forall>l < L. rs_interval_ptr st ! l = pre_sum count0 l"
    and tot: "pre_sum count0 L = n"
  shows "rs_placed n lam (Suc k) (rs_place lam k st)"
proof -
  define ptr where "ptr = rs_interval_ptr st"
  define cnt where "cnt = rs_interval_count st"
  define i2n where "i2n = rs_index_to_node st"
  define n2i where "n2i = rs_node_to_index st"
  define l where "l = lam ! k"
  define idx where "idx = ptr ! l + cnt ! l"
  have A1: "length i2n = n" "length n2i = n"
    and A2: "\<And>a. a < L \<Longrightarrow> cnt ! a = occ lam a k"
    and A3: "\<And>a p. a < L \<Longrightarrow> ptr ! a \<le> p \<Longrightarrow> p < ptr ! a + occ lam a k
               \<Longrightarrow> i2n ! p < k \<and> lam ! (i2n ! p) = a \<and> n2i ! (i2n ! p) = p"
    and A4: "\<And>i. i < k \<Longrightarrow> ptr ! (lam ! i) \<le> n2i ! i \<and> n2i ! i < ptr ! (lam ! i) + occ lam (lam ! i) k
               \<and> i2n ! (n2i ! i) = i"
    using pl unfolding rs_placed_def len ptr_def cnt_def i2n_def n2i_def by blast+
  have ptr: "\<And>a. a < L \<Longrightarrow> ptr ! a = pre_sum count0 a" using ptr0 by (simp add: ptr_def)
  have e: "\<forall>a < L. 0 < count0 ! a \<longrightarrow> ptr ! a = pre_sum count0 a" using ptr by simp
  have lL: "l < L" using lamL k by (simp add: l_def)
  have occ_l: "occ lam l (Suc k) = occ lam l k + 1" by (simp add: occ_Suc l_def)
  have occ_o: "occ lam a (Suc k) = occ lam a k" if "a \<noteq> l" for a
    using that by (auto simp: occ_Suc l_def)
  have occ_le: "occ lam a k \<le> count0 ! a" if "a < L" for a
    using occ_mono[of k n lam a] k c0 that by simp
  have "occ lam l (Suc k) \<le> count0 ! l" using occ_mono[of "Suc k" n lam l] k c0 lL by simp
  then have occ_lt: "occ lam l k < count0 ! l" using occ_l by simp
  have idx_eq: "idx = ptr ! l + occ lam l k" using A2[OF lL] by (simp add: idx_def)
  have idx_hi: "idx < ptr ! l + count0 ! l" using occ_lt by (simp add: idx_eq)
  have idx_n: "idx < n"
    using idx_hi pre_sum_Suc_le[OF lL, of count0] ptr[OF lL] tot by simp
  have fresh: "p \<noteq> idx" if a: "a < L" "ptr ! a \<le> p" "p < ptr ! a + occ lam a k" for a p
  proof
    assume pi: "p = idx"
    have hi: "p < ptr ! a + count0 ! a" using a(3) occ_le[OF a(1)] by simp
    have lo': "ptr ! l \<le> p" using pi by (simp add: idx_eq)
    have hi': "p < ptr ! l + count0 ! l" using pi idx_hi by simp
    have "a = l" by (rule bucket_unique[OF e a(1) a(2) hi lL lo' hi'])
    then show False using a(3) pi by (simp add: idx_eq)
  qed
  define st' where "st' = rs_place lam k st"
  have st': "rs_interval_ptr st' = ptr" "rs_interval_count st' = cnt[l := cnt ! l + 1]"
    "rs_index_to_node st' = i2n[idx := k]" "rs_node_to_index st' = n2i[k := idx]"
    by (simp_all add: st'_def rs_place_fields ptr_def cnt_def i2n_def n2i_def l_def idx_def)
  have B2: "cnt[l := cnt ! l + 1] ! a = occ lam a (Suc k)" if "a < L" for a
    using that A2[OF that] len occ_l occ_o[of a] by (cases "a = l") (simp_all add: cnt_def)
  have B3: "i2n[idx := k] ! p < Suc k \<and> lam ! (i2n[idx := k] ! p) = a
            \<and> n2i[k := idx] ! (i2n[idx := k] ! p) = p"
    if a: "a < L" "ptr ! a \<le> p" "p < ptr ! a + occ lam a (Suc k)" for a p
  proof (cases "p = idx")
    case True
    have hi: "p < ptr ! a + count0 ! a"
      using a(3) occ_mono[of "Suc k" n lam a] k c0 a(1) by simp
    have lo': "ptr ! l \<le> p" using True by (simp add: idx_eq)
    have hi': "p < ptr ! l + count0 ! l" using True idx_hi by simp
    have "a = l" by (rule bucket_unique[OF e a(1) a(2) hi lL lo' hi'])
    then show ?thesis using True idx_n k A1 by (simp add: l_def)
  next
    case False
    have "p < ptr ! a + occ lam a k"
      using a(3) False occ_l occ_o[of a] by (cases "a = l") (simp_all add: idx_eq)
    from A3[OF a(1) a(2) this] False show ?thesis by simp
  qed
  have B4: "ptr ! (lam ! i) \<le> n2i[k := idx] ! i
            \<and> n2i[k := idx] ! i < ptr ! (lam ! i) + occ lam (lam ! i) (Suc k)
            \<and> i2n[idx := k] ! (n2i[k := idx] ! i) = i"
    if i: "i < Suc k" for i
  proof (cases "i = k")
    case True
    then show ?thesis using k A1 idx_n occ_l by (simp add: idx_eq l_def)
  next
    case False
    then have ik: "i < k" using i by simp
    have iL: "lam ! i < L" using lamL ik k by simp
    note a4 = A4[OF ik]
    have "n2i ! i \<noteq> idx" using fresh[OF iL] a4 by blast
    moreover have "occ lam (lam ! i) k \<le> occ lam (lam ! i) (Suc k)" by (rule occ_mono) simp
    ultimately show ?thesis using a4 False by simp
  qed
  show ?thesis
    unfolding rs_placed_def st'_def[symmetric] st' using A1 B2 B3 B4 len by (simp add: cnt_def)
qed

lemma rs_place_fold:
  assumes lamL: "\<forall>i < n. lam ! i < L" and c0: "\<forall>l < L. count0 ! l = occ lam l n"
    and tot: "pre_sum count0 L = n"
    and start: "rs_placed n lam 0 st0" and len: "length (rs_interval_count st0) = L"
    and ptr0: "\<forall>l < L. rs_interval_ptr st0 ! l = pre_sum count0 l"
    and k: "k \<le> n"
  shows "rs_placed n lam k (fold (rs_place lam) [0..<k] st0)
         \<and> length (rs_interval_count (fold (rs_place lam) [0..<k] st0)) = L
         \<and> rs_interval_ptr (fold (rs_place lam) [0..<k] st0) = rs_interval_ptr st0
         \<and> rs_lambda (fold (rs_place lam) [0..<k] st0) = rs_lambda st0
         \<and> rs_splitting (fold (rs_place lam) [0..<k] st0) = rs_splitting st0"
  using k
proof (induction k)
  case 0
  then show ?case using start len by simp
next
  case (Suc k)
  define st where "st = fold (rs_place lam) [0..<k] st0"
  have ih: "rs_placed n lam k st" "length (rs_interval_count st) = L"
    "rs_interval_ptr st = rs_interval_ptr st0" "rs_lambda st = rs_lambda st0"
    "rs_splitting st = rs_splitting st0"
    using Suc unfolding st_def by simp_all
  have kn: "k < n" using Suc.prems by simp
  have p: "\<forall>l < L. rs_interval_ptr st ! l = pre_sum count0 l" using ptr0 ih(3) by simp
  have step: "fold (rs_place lam) [0..<Suc k] st0 = rs_place lam k st" by (simp add: st_def)
  show ?case
    unfolding step using rs_place_step[OF ih(1) kn lamL ih(2) c0 p tot] ih
    by (simp add: rs_place_fields)
qed

lemma rs_mark_nth:
  "length (fold (\<lambda>i s. if c i then s[i := v] else s) xs a) = length a
   \<and> (\<forall>p. fold (\<lambda>i s. if c i then s[i := v] else s) xs a ! p = v
           \<or> fold (\<lambda>i s. if c i then s[i := v] else s) xs a ! p = a ! p)"
proof (induction xs arbitrary: a)
  case Nil
  then show ?case by simp
next
  case (Cons x xs)
  define a' where "a' = (if c x then a[x := v] else a)"
  have len: "length (fold (\<lambda>i s. if c i then s[i := v] else s) xs a') = length a"
    using Cons[of a'] by (simp add: a'_def)
  have nth: "fold (\<lambda>i s. if c i then s[i := v] else s) xs a' ! p = v
             \<or> fold (\<lambda>i s. if c i then s[i := v] else s) xs a' ! p = a ! p" for p
  proof -
    have "a' ! p = v \<or> a' ! p = a ! p" by (simp add: a'_def nth_list_update_total)
    moreover have "fold (\<lambda>i s. if c i then s[i := v] else s) xs a' ! p = v
             \<or> fold (\<lambda>i s. if c i then s[i := v] else s) xs a' ! p = a' ! p"
      using Cons[of a'] by blast
    ultimately show ?thesis by auto
  qed
  have step: "fold (\<lambda>i s. if c i then s[i := v] else s) (x # xs) a
              = fold (\<lambda>i s. if c i then s[i := v] else s) xs a'"
    by (simp add: a'_def)
  show ?case unfolding step using len nth by blast
qed

lemma pre_sum_cong: "\<forall>l < a. c ! l = d ! l \<Longrightarrow> pre_sum c a = pre_sum d a"
  by (simp add: pre_sum_def)

lemma rs_init_inv:
  assumes spl: "length splitting = n"
  shows "rs_inv n n (rs_init n Tp Tj influence splitting)"
    and "rs_pending n {} (rs_init n Tp Tj influence splitting)"
proof -
  define lam where
    "lam = fold (\<lambda>i lam. lam[i := Tp ! (i + 1) - Tp ! i + influence ! i]) [0..<n] (replicate n 0)"
  define L where "L = rs_lambda_max n lam"
  define count0 where
    "count0 = fold (\<lambda>i interval_count. interval_count[lam ! i := interval_count ! (lam ! i) + 1])
                   [0..<n] (replicate L (0::nat))"
  obtain ptr1 count1 cs where
    cum: "fold rs_cumsum [0..<L] (replicate L 0, count0, 0) = (ptr1, count1, cs)"
    by (cases "fold rs_cumsum [0..<L] (replicate L 0, count0, 0)")
  define st0 where
    "st0 = \<lparr> rs_lambda = lam, rs_interval_ptr = ptr1, rs_interval_count = count1,
             rs_index_to_node = replicate n 0, rs_node_to_index = replicate n 0,
             rs_splitting = fill n U_NODE splitting \<rparr>"
  define stp where "stp = fold (rs_place lam) [0..<n] st0"
  define marks where
    "marks = fold (\<lambda>i splitting.
                     if lam ! i = 0 \<or> (lam ! i = 1 \<and> Tj ! (Tp ! i) = i)
                     then splitting[i := F_NODE] else splitting)
                  [0..<n] (rs_splitting stp)"
  have init: "rs_init n Tp Tj influence splitting = stp\<lparr> rs_splitting := marks \<rparr>"
    using cum
    unfolding rs_init_def Let_def marks_def stp_def st0_def count0_def L_def lam_def
    by simp
  have len_lam: "length lam = n" by (simp add: lam_def rs_priorities_length)
  have lamL: "\<forall>i < n. lam ! i < L" and nL: "n + 1 \<le> L"
    using rs_lambda_max_bound[where n = n and lam = lam] by (simp_all add: L_def)
  have len_c0: "length count0 = L" and c0: "\<forall>l < L. count0 ! l = occ lam l n"
    using rs_count_occ[OF lamL] by (simp_all add: count0_def)
  from rs_cumsum_fold[of L count0 "replicate L 0"] len_c0 cum
  have len_p1: "length ptr1 = L" and len_c1: "length count1 = L"
    and p1: "\<forall>l < L. ptr1 ! l = pre_sum count0 l" and c1: "\<forall>l < L. count1 ! l = 0"
    by simp_all
  have tot: "pre_sum count0 L = n"
  proof -
    have "pre_sum count0 L = (\<Sum>l < L. occ lam l n)" unfolding pre_sum_def using c0 by simp
    then show ?thesis using occ_total[OF lamL] by simp
  qed
  have start: "rs_placed n lam 0 st0"
    unfolding rs_placed_def using c1 len_c1 by (simp add: st0_def occ_def)
  from rs_place_fold[OF lamL c0 tot start, of n] len_c1 p1
  have placed: "rs_placed n lam n stp" and len_cnt: "length (rs_interval_count stp) = L"
    and stp: "rs_interval_ptr stp = ptr1" "rs_lambda stp = lam"
      "rs_splitting stp = fill n U_NODE splitting"
    by (simp_all add: stp_def st0_def)
  define cnt where "cnt = rs_interval_count stp"
  define i2n where "i2n = rs_index_to_node stp"
  define n2i where "n2i = rs_node_to_index stp"
  have A1: "length i2n = n" "length n2i = n"
    and A2: "\<And>a. a < L \<Longrightarrow> cnt ! a = count0 ! a"
    and A3: "\<And>a p. a < L \<Longrightarrow> ptr1 ! a \<le> p \<Longrightarrow> p < ptr1 ! a + occ lam a n
               \<Longrightarrow> i2n ! p < n \<and> lam ! (i2n ! p) = a \<and> n2i ! (i2n ! p) = p"
    and A4: "\<And>i. i < n \<Longrightarrow> ptr1 ! (lam ! i) \<le> n2i ! i \<and> n2i ! i < ptr1 ! (lam ! i) + occ lam (lam ! i) n
               \<and> i2n ! (n2i ! i) = i"
    using placed c0 unfolding rs_placed_def len_cnt stp cnt_def i2n_def n2i_def by simp_all
  have ps: "pre_sum cnt a = pre_sum count0 a" if "a \<le> L" for a
    using A2 that by (intro pre_sum_cong) simp
  have pos: "i2n ! p < n \<and> lam ! (i2n ! p) < L \<and> n2i ! (i2n ! p) = p
             \<and> ptr1 ! (lam ! (i2n ! p)) \<le> p \<and> p < ptr1 ! (lam ! (i2n ! p)) + cnt ! (lam ! (i2n ! p))"
    if p: "p < n" for p
  proof -
    from bucket_exists[of p count0 L] p tot obtain a where
      a: "a < L" "pre_sum count0 a \<le> p" "p < pre_sum count0 a + count0 ! a" by auto
    have "ptr1 ! a \<le> p" "p < ptr1 ! a + occ lam a n" using a p1 c0 by simp_all
    from A3[OF a(1) this] a p1 A2[OF a(1)] show ?thesis by simp
  qed
  have node: "n2i ! v < n \<and> i2n ! (n2i ! v) = v" if v: "v < n" for v
  proof -
    have vL: "lam ! v < L" using lamL v by simp
    have "n2i ! v < pre_sum count0 (lam ! v) + count0 ! (lam ! v)"
      using A4[OF v] p1 c0 vL by simp
    then have "n2i ! v < n" using pre_sum_Suc_le[OF vL, of count0] tot by simp
    then show ?thesis using A4[OF v] by simp
  qed
  define st where "st = stp\<lparr> rs_splitting := marks \<rparr>"
  have st: "rs_lambda st = lam" "rs_interval_ptr st = ptr1" "rs_interval_count st = cnt"
    "rs_index_to_node st = i2n" "rs_node_to_index st = n2i" "rs_splitting st = marks"
    by (simp_all add: st_def stp cnt_def i2n_def n2i_def)
  have len_cnt': "length cnt = L" using len_cnt by (simp add: cnt_def)
  have perm: "rs_perm n st" unfolding rs_perm_def st using A1 pos node by simp
  have e: "ptr1 ! a = pre_sum cnt a" if "a < L" for a using p1 ps[of a] that by simp
  have d: "\<forall>p < n. ptr1 ! (lam ! (i2n ! p)) \<le> p
                  \<and> p < ptr1 ! (lam ! (i2n ! p)) + cnt ! (lam ! (i2n ! p))"
    using pos by blast
  have e': "\<forall>a < L. 0 < cnt ! a \<longrightarrow> ptr1 ! a = pre_sum cnt a" using e by blast
  have f: "pre_sum cnt L = n" using ps[of L] tot by simp
  have buckets: "rs_buckets n n st"
    unfolding rs_buckets_def st len_cnt'
    using len_lam len_p1 nL lamL d e' f by blast
  have fl: "length (fill n U_NODE splitting) = n"
    "\<And>p. p < n \<Longrightarrow> fill n U_NODE splitting ! p = U_NODE"
    using fill_nth[of n U_NODE splitting] spl by simp_all
  have mk: "length marks = n" "\<And>p. p < n \<Longrightarrow> marks ! p = F_NODE \<or> marks ! p = U_NODE"
  proof -
    note m = rs_mark_nth[of "\<lambda>i. lam ! i = 0 \<or> (lam ! i = 1 \<and> Tj ! (Tp ! i) = i)" F_NODE
        "[0..<n]" "rs_splitting stp", folded marks_def]
    show "length marks = n" using m fl(1) by (simp add: stp)
    show "marks ! p = F_NODE \<or> marks ! p = U_NODE" if "p < n" for p
      using m fl(2)[OF that] by (auto simp: stp)
  qed
  have labels: "rs_labels n n st" unfolding rs_labels_def st using mk(1) node by simp
  show "rs_inv n n (rs_init n Tp Tj influence splitting)"
    unfolding init st_def[symmetric] rs_inv_def using perm buckets labels by simp
  show "rs_pending n {} (rs_init n Tp Tj influence splitting)"
    unfolding init st_def[symmetric] rs_pending_def st using mk(2) by blast
qed

lemma rs_returns_CF:
  assumes S: "csr_wf n Sp Sj" and T: "csr_wf n Tp Tj" and spl: "length splitting = n"
  shows "length (rs_cf_splitting n Sp Sj Tp Tj influence splitting) = n
         \<and> (\<forall>i < n. rs_cf_splitting n Sp Sj Tp Tj influence splitting ! i = F_NODE
                    \<or> rs_cf_splitting n Sp Sj Tp Tj influence splitting ! i = C_NODE)"
proof -
  note init = rs_init_inv[OF spl, of Tp Tj influence]
  from rs_loop_inv[OF init S T]
  have fin: "rs_inv n 0 (fold (rs_step n Sp Sj Tp Tj) (rev [0..<n]) (rs_init n Tp Tj influence splitting))"
    and pend: "rs_pending n {} (fold (rs_step n Sp Sj Tp Tj) (rev [0..<n]) (rs_init n Tp Tj influence splitting))"
    by simp_all
  show ?thesis
    unfolding rs_cf_splitting_def using rs_inv_facts(16)[OF fin] rs_final_labels[OF fin pend] by simp
qed

text \<open>
  Claim C4 (\<^verbatim>\<open>rs_cf_splitting\<close>, the tie-break of the main loop): the claim says that
  the node promoted to \<open>C_NODE\<close> is the one with the largest index among the unassigned
  nodes of the bucket. The search of the code compares the indices of all the nodes at the
  positions of the bucket and does not read their labels, so a node that is already
  \<open>F_NODE\<close> is swapped to the top and relabelled \<open>C_NODE\<close>. The input has 4 nodes,
  \<open>S\<close> with the entries \<open>(0,1)\<close>, \<open>(1,2)\<close>, \<open>(2,0)\<close>, \<open>(3,0)\<close>, \<open>(3,2)\<close>, \<open>(3,3)\<close>, its
  transpose \<open>T\<close>, and no influence. Node 3 influences only itself and is made \<open>F_NODE\<close> by
  the initialisation. After the iteration at position 3 the bucket of priority 1 holds the
  nodes 1, 3, 0 at the positions 0, 1, 2, with the labels F, F, U. The iteration at
  position 2 finds node 0 unassigned on top, searches the positions 0 and 1, and promotes
  node 3; node 0 is still unassigned afterwards.
\<close>

theorem rs_tie_break_promotes_F_node:
  "rs_splitting (rs_init 4 [0, 2, 3, 5, 6] [2, 3, 0, 1, 3, 3] [0, 0, 0, 0] [0, 0, 0, 0])
     = [U_NODE, U_NODE, U_NODE, F_NODE]
   \<and> rs_splitting (rs_step 4 [0, 1, 2, 3, 6] [1, 2, 0, 0, 2, 3] [0, 2, 3, 5, 6] [2, 3, 0, 1, 3, 3] 3
                     (rs_init 4 [0, 2, 3, 5, 6] [2, 3, 0, 1, 3, 3] [0, 0, 0, 0] [0, 0, 0, 0]))
     = [U_NODE, F_NODE, C_NODE, F_NODE]
   \<and> rs_lambda (rs_step 4 [0, 1, 2, 3, 6] [1, 2, 0, 0, 2, 3] [0, 2, 3, 5, 6] [2, 3, 0, 1, 3, 3] 3
                     (rs_init 4 [0, 2, 3, 5, 6] [2, 3, 0, 1, 3, 3] [0, 0, 0, 0] [0, 0, 0, 0]))
     = [1, 1, 2, 1]
   \<and> rs_interval_ptr (rs_step 4 [0, 1, 2, 3, 6] [1, 2, 0, 0, 2, 3] [0, 2, 3, 5, 6] [2, 3, 0, 1, 3, 3] 3
                     (rs_init 4 [0, 2, 3, 5, 6] [2, 3, 0, 1, 3, 3] [0, 0, 0, 0] [0, 0, 0, 0]))
     = [0, 0, 3, 4, 4]
   \<and> rs_interval_count (rs_step 4 [0, 1, 2, 3, 6] [1, 2, 0, 0, 2, 3] [0, 2, 3, 5, 6] [2, 3, 0, 1, 3, 3] 3
                     (rs_init 4 [0, 2, 3, 5, 6] [2, 3, 0, 1, 3, 3] [0, 0, 0, 0] [0, 0, 0, 0]))
     = [0, 3, 0, 0, 0]
   \<and> rs_index_to_node (rs_step 4 [0, 1, 2, 3, 6] [1, 2, 0, 0, 2, 3] [0, 2, 3, 5, 6] [2, 3, 0, 1, 3, 3] 3
                     (rs_init 4 [0, 2, 3, 5, 6] [2, 3, 0, 1, 3, 3] [0, 0, 0, 0] [0, 0, 0, 0]))
     = [1, 3, 0, 2]
   \<and> rs_splitting (rs_step 4 [0, 1, 2, 3, 6] [1, 2, 0, 0, 2, 3] [0, 2, 3, 5, 6] [2, 3, 0, 1, 3, 3] 2
        (rs_step 4 [0, 1, 2, 3, 6] [1, 2, 0, 0, 2, 3] [0, 2, 3, 5, 6] [2, 3, 0, 1, 3, 3] 3
           (rs_init 4 [0, 2, 3, 5, 6] [2, 3, 0, 1, 3, 3] [0, 0, 0, 0] [0, 0, 0, 0])))
     = [U_NODE, F_NODE, C_NODE, C_NODE]
   \<and> rs_cf_splitting 4 [0, 1, 2, 3, 6] [1, 2, 0, 0, 2, 3] [0, 2, 3, 5, 6] [2, 3, 0, 1, 3, 3]
        [0, 0, 0, 0] [0, 0, 0, 0]
     = [C_NODE, F_NODE, C_NODE, C_NODE]"
  by code_simp

text \<open>
  Claim C2 (\<^verbatim>\<open>rs_cf_splitting\<close> and \<^verbatim>\<open>cljp_naive_splitting\<close>): for strength matrices
  \<open>S\<close> and \<open>T\<close> whose column indices are nodes, a row pointer of \<open>T\<close> that does not
  decrease, an \<^verbatim>\<open>influence\<close> for which \<^verbatim>\<open>n_nodes + 1\<close> and twice every initial priority
  fit a 32-bit \<^verbatim>\<open>int\<close> and the initialisation reads inside \<^verbatim>\<open>Tj\<close>, and an output array
  of \<open>n\<close> entries, \<^verbatim>\<open>rs_cf_splitting\<close> returns an array whose entries are all \<open>F_NODE\<close> or
  \<open>C_NODE\<close>: no entry is \<open>U_NODE\<close> or \<open>PRE_F_NODE\<close>. For at least one node, \<^verbatim>\<open>cljp_naive_splitting\<close> returns, and the same holds
  of its array, for all seed weights. Both hold for all previous contents of the array.
\<close>

theorem splittings_are_CF:
  assumes "csr_wf n Sp Sj" and "csr_wf n Tp Tj" and "ptr_nondecreasing n Tp"
    and "rs_int_range n Tp influence" and "rs_reads_in_bounds n Tp Tj influence"
    and "length splitting = n"
  shows "length (rs_cf_splitting n Sp Sj Tp Tj influence splitting) = n
       \<and> (\<forall>i < n. rs_cf_splitting n Sp Sj Tp Tj influence splitting ! i = F_NODE
                  \<or> rs_cf_splitting n Sp Sj Tp Tj influence splitting ! i = C_NODE)
       \<and> (\<forall>i < n. rs_cf_splitting n Sp Sj Tp Tj influence splitting ! i \<noteq> U_NODE
                  \<and> rs_cf_splitting n Sp Sj Tp Tj influence splitting ! i \<noteq> PRE_F_NODE)
       \<and> (0 < n \<longrightarrow>
            (\<exists>r. cljp_naive_splitting n Sp Sj Tp Tj w0 splitting = Some r \<and> length r = n
                 \<and> (\<forall>i < n. r ! i = F_NODE \<or> r ! i = C_NODE)
                 \<and> (\<forall>i < n. r ! i \<noteq> U_NODE \<and> r ! i \<noteq> PRE_F_NODE)))"
proof -
  note rs = rs_returns_CF[OF assms(1,2,6), of influence]
  have a: "\<forall>i < n. rs_cf_splitting n Sp Sj Tp Tj influence splitting ! i \<noteq> U_NODE
                  \<and> rs_cf_splitting n Sp Sj Tp Tj influence splitting ! i \<noteq> PRE_F_NODE"
    using rs by (auto simp: F_NODE_def C_NODE_def U_NODE_def PRE_F_NODE_def)
  from cljp_returns_CF[OF assms(1,2,6), of w0] obtain r where
    r: "cljp_naive_splitting n Sp Sj Tp Tj w0 splitting = Some r" "length r = n"
       "\<forall>i < n. r ! i = F_NODE \<or> r ! i = C_NODE"
    by blast
  have b: "\<forall>i < n. r ! i \<noteq> U_NODE \<and> r ! i \<noteq> PRE_F_NODE"
    using r(3) by (auto simp: F_NODE_def C_NODE_def U_NODE_def PRE_F_NODE_def)
  show ?thesis using rs a r b by blast
qed

theorem splittings_are_CF_witness:
  "rs_cf_splitting 3 [0, 0, 1, 2] [0, 1] [0, 1, 2, 2] [1, 2] [0, 0, 0] [3, 2, 0]
     = [C_NODE, C_NODE, C_NODE]
   \<and> list_all (\<lambda>x. x = F_NODE \<or> x = C_NODE)
        (rs_cf_splitting 3 [0, 0, 1, 2] [0, 1] [0, 1, 2, 2] [1, 2] [0, 0, 0] [3, 2, 0])
   \<and> (\<exists>r. cljp_naive_splitting 3 [0, 0, 1, 2] [0, 1] [0, 1, 2, 2] [1, 2] [0, 1 / 2, 0] [3, 2, 0] = Some r
          \<and> length r = 3 \<and> list_all (\<lambda>x. x = F_NODE \<or> x = C_NODE) r)"
proof -
  have wfS: "csr_wf 3 [0, 0, 1, 2] [0, 1]" by code_simp
  have wfT: "csr_wf 3 [0, 1, 2, 2] [1, 2]" by code_simp
  have nd: "ptr_nondecreasing 3 [0, 1, 2, 2]" by code_simp
  have rg: "rs_int_range 3 [0, 1, 2, 2] [0, 0, 0]"
    by (simp add: rs_int_range_def int_max_def upt_rec)
  have rd: "rs_reads_in_bounds 3 [0, 1, 2, 2] [1, 2] [0, 0, 0]" by code_simp
  have len: "length [3, 2, 0::nat] = 3" by simp
  have ev: "rs_cf_splitting 3 [0, 0, 1, 2] [0, 1] [0, 1, 2, 2] [1, 2] [0, 0, 0] [3, 2, 0]
            = [C_NODE, C_NODE, C_NODE]"
    by code_simp
  from splittings_are_CF[OF wfS wfT nd rg rd len, of "[0, 1 / 2, 0]"]
  show ?thesis unfolding ev by (auto simp: list_all_length)
qed

end
